theory Spec2Isabelle
  imports Complex_Main "HOL-Library.Log_Nat" "HOL-Library.Word" "HOL-Library.Multiset"
begin

section \<open>Python exceptions as values\<close>

text \<open>
  Every function of \<^verbatim>\<open>mlib.py\<close> either returns a value or raises. A raise is the
  left injection of a sum; \<open>bindE\<close> sequences two computations and stops at the first
  raise, as the interpreter does.
\<close>

datatype error =
  AssertionError | ZeroDivisionError | OverflowError | ValueError | StructError | IndexError

definition bindE :: "error + 'a \<Rightarrow> ('a \<Rightarrow> error + 'b) \<Rightarrow> error + 'b" where
  "bindE m f = (case m of Inl e \<Rightarrow> Inl e | Inr v \<Rightarrow> f v)"

text \<open>\<^verbatim>\<open>x and y\<close>: the right operand is evaluated only when the left one is true.\<close>

definition andE :: "error + bool \<Rightarrow> error + bool \<Rightarrow> error + bool" where
  "andE x y = bindE x (\<lambda>b. if b then y else Inr False)"

text \<open>\<^verbatim>\<open>assert c\<close> followed by the rest of the body.\<close>

definition assertE :: "error + bool \<Rightarrow> error + 'a \<Rightarrow> error + 'a" where
  "assertE c k = bindE c (\<lambda>b. if b then k else Inl AssertionError)"

text \<open>\<^verbatim>\<open>for i in xs: s = body(i, s)\<close>, where the body may raise.\<close>

fun forE :: "'i list \<Rightarrow> 's \<Rightarrow> ('i \<Rightarrow> 's \<Rightarrow> error + 's) \<Rightarrow> error + 's" where
  "forE [] s body = Inr s"
| "forE (i # xs) s body = bindE (body i s) (\<lambda>s'. forE xs s' body)"

text \<open>
  Functions that contain a \<^verbatim>\<open>while\<close> loop over floats may fail to return; their result
  is an option, \<open>None\<close> meaning that the call never returns.
\<close>

definition bindP :: "(error + 'a) option \<Rightarrow> ('a \<Rightarrow> (error + 'b) option) \<Rightarrow> (error + 'b) option" where
  "bindP m f = (case m of None \<Rightarrow> None | Some (Inl e) \<Rightarrow> Some (Inl e) | Some (Inr v) \<Rightarrow> f v)"

definition assertP :: "error + bool \<Rightarrow> (error + 'a) option \<Rightarrow> (error + 'a) option" where
  "assertP c k = bindP (Some c) (\<lambda>b. if b then k else Some (Inl AssertionError))"

section \<open>Python floats: IEEE-754 binary64 with round-to-nearest-even\<close>

text \<open>
  A float is a NaN, an infinity, or a finite value, kept as the rational number it
  denotes. The sign of a zero is not represented: the library never observes it (all
  its comparisons treat \<^verbatim>\<open>-0.0\<close> and \<^verbatim>\<open>0.0\<close> alike, a division by either raises, and
  \<^verbatim>\<open>to_bits\<close> rejects a zero before packing it).
\<close>

datatype double = Fin rat | PInf | NInf | NaN

text \<open>Rounding a rational to the nearest integer, ties to even.\<close>

definition rne :: "rat \<Rightarrow> int" where
  "rne x = (let f = \<lfloor>x\<rfloor>; d = x - of_int f in
     if d < 1 / 2 then f else if 1 / 2 < d then f + 1 else if even f then f else f + 1)"

text \<open>Powers of two with an integer exponent.\<close>

definition pow2 :: "int \<Rightarrow> rat" where
  "pow2 e = (if 0 \<le> e then of_int (2 ^ nat e) else 1 / of_int (2 ^ nat (- e)))"

text \<open>The binary exponent of a positive rational: \<open>pow2 (ilog2 x) \<le> x < pow2 (ilog2 x + 1)\<close>.\<close>

definition ilog2 :: "rat \<Rightarrow> int" where
  "ilog2 x = (let (p, q) = quotient_of x; g = bitlen p - bitlen q in
     if pow2 g \<le> x then g else g - 1)"

text \<open>
  Rounding to a binary format of precision \<open>p\<close> with exponents \<open>emin .. emax\<close>: the
  spacing of the format around \<open>x\<close> is \<open>quantum p emin x\<close> (subnormals share the
  spacing of the smallest normal binade); a result beyond the largest finite value
  becomes an infinity.
\<close>

definition quantum :: "nat \<Rightarrow> int \<Rightarrow> rat \<Rightarrow> rat" where
  "quantum p emin x = pow2 (max (ilog2 \<bar>x\<bar>) emin - (int p - 1))"

definition round_fmt :: "nat \<Rightarrow> int \<Rightarrow> int \<Rightarrow> rat \<Rightarrow> double" where
  "round_fmt p emin emax x =
     (if x = 0 then Fin 0
      else let y = of_int (rne (x / quantum p emin x)) * quantum p emin x
           in if pow2 (emax + 1) \<le> \<bar>y\<bar> then (if 0 < x then PInf else NInf) else Fin y)"

definition round_double :: "rat \<Rightarrow> double" where
  "round_double = round_fmt 53 (- 1022) 1023"

definition round_single :: "rat \<Rightarrow> double" where
  "round_single = round_fmt 24 (- 126) 127"

text \<open>The rationals that are doubles, and those that are binary32 floats: rounding keeps them.\<close>

definition is_double :: "rat \<Rightarrow> bool" where
  "is_double x = (round_double x = Fin x)"


text \<open>A decimal literal of the source denotes the double nearest to it.\<close>

definition lit :: "rat \<Rightarrow> double" where
  "lit x = round_double x"

subsection \<open>Arithmetic and comparison\<close>

fun fneg :: "double \<Rightarrow> double" where
  "fneg (Fin x) = Fin (- x)"
| "fneg PInf = NInf"
| "fneg NInf = PInf"
| "fneg NaN = NaN"

fun fadd :: "double \<Rightarrow> double \<Rightarrow> double" where
  "fadd (Fin x) (Fin y) = round_double (x + y)"
| "fadd NaN _ = NaN"
| "fadd _ NaN = NaN"
| "fadd PInf NInf = NaN"
| "fadd NInf PInf = NaN"
| "fadd PInf _ = PInf"
| "fadd _ PInf = PInf"
| "fadd NInf _ = NInf"
| "fadd _ NInf = NInf"

definition fsub :: "double \<Rightarrow> double \<Rightarrow> double" where
  "fsub a b = fadd a (fneg b)"

text \<open>The infinity with the sign of \<open>s\<close> (\<open>s\<close> is not zero where this is used).\<close>

definition inf_of_sign :: "rat \<Rightarrow> double" where
  "inf_of_sign s = (if 0 < s then PInf else NInf)"

fun fmul :: "double \<Rightarrow> double \<Rightarrow> double" where
  "fmul (Fin x) (Fin y) = round_double (x * y)"
| "fmul NaN _ = NaN"
| "fmul _ NaN = NaN"
| "fmul (Fin x) PInf = (if x = 0 then NaN else inf_of_sign x)"
| "fmul (Fin x) NInf = (if x = 0 then NaN else inf_of_sign (- x))"
| "fmul PInf (Fin y) = (if y = 0 then NaN else inf_of_sign y)"
| "fmul NInf (Fin y) = (if y = 0 then NaN else inf_of_sign (- y))"
| "fmul PInf PInf = PInf"
| "fmul NInf NInf = PInf"
| "fmul PInf NInf = NInf"
| "fmul NInf PInf = NInf"

text \<open>
  \<^verbatim>\<open>a / b\<close> on floats: Python raises on a zero divisor before anything else; the rest
  is IEEE division.
\<close>

fun truediv :: "double \<Rightarrow> double \<Rightarrow> error + double" where
  "truediv (Fin x) (Fin y) = (if y = 0 then Inl ZeroDivisionError else Inr (round_double (x / y)))"
| "truediv NaN (Fin y) = (if y = 0 then Inl ZeroDivisionError else Inr NaN)"
| "truediv PInf (Fin y) = (if y = 0 then Inl ZeroDivisionError else Inr (inf_of_sign y))"
| "truediv NInf (Fin y) = (if y = 0 then Inl ZeroDivisionError else Inr (inf_of_sign (- y)))"
| "truediv _ NaN = Inr NaN"
| "truediv NaN _ = Inr NaN"
| "truediv (Fin x) _ = Inr (Fin 0)"
| "truediv _ _ = Inr NaN"

fun flt :: "double \<Rightarrow> double \<Rightarrow> bool" where
  "flt (Fin x) (Fin y) = (x < y)"
| "flt NaN _ = False"
| "flt _ NaN = False"
| "flt PInf _ = False"
| "flt _ NInf = False"
| "flt _ _ = True"

definition feq :: "double \<Rightarrow> double \<Rightarrow> bool" where
  "feq a b = (a \<noteq> NaN \<and> a = b)"

definition fne :: "double \<Rightarrow> double \<Rightarrow> bool" where
  "fne a b = (\<not> feq a b)"

definition fle :: "double \<Rightarrow> double \<Rightarrow> bool" where
  "fle a b = (flt a b \<or> feq a b)"

definition fgt :: "double \<Rightarrow> double \<Rightarrow> bool" where
  "fgt a b = flt b a"

definition fge :: "double \<Rightarrow> double \<Rightarrow> bool" where
  "fge a b = fle b a"

subsection \<open>Integers and floats\<close>

text \<open>
  An int that meets a float in an arithmetic operation is converted first (correctly
  rounded; \<^verbatim>\<open>OverflowError\<close> when it is too large). A comparison between a float and an
  int is exact, so there the int is taken as \<open>Fin (of_int n)\<close> unrounded.
\<close>

definition int_to_float :: "int \<Rightarrow> error + double" where
  "int_to_float n = (case round_double (of_int n) of Fin y \<Rightarrow> Inr (Fin y) | _ \<Rightarrow> Inl OverflowError)"

text \<open>\<^verbatim>\<open>a / b\<close> on ints: the correctly rounded quotient.\<close>

definition truediv_int :: "int \<Rightarrow> int \<Rightarrow> error + double" where
  "truediv_int a b =
     (if b = 0 then Inl ZeroDivisionError
      else case round_double (of_int a / of_int b) of Fin y \<Rightarrow> Inr (Fin y) | _ \<Rightarrow> Inl OverflowError)"

definition trunc :: "rat \<Rightarrow> int" where
  "trunc x = (if 0 \<le> x then \<lfloor>x\<rfloor> else \<lceil>x\<rceil>)"

text \<open>\<^verbatim>\<open>int(a)\<close>: truncation towards zero.\<close>

fun float_to_int :: "double \<Rightarrow> error + int" where
  "float_to_int (Fin x) = Inr (trunc x)"
| "float_to_int NaN = Inl ValueError"
| "float_to_int _ = Inl OverflowError"

section \<open>The module\<close>

subsection \<open>Constants\<close>

definition PI :: double where "PI = lit (31415926535897932 / 10 ^ 16)"
definition TAU :: double where "TAU = lit (62831853071795864 / 10 ^ 16)"
definition PHI :: double where "PHI = lit (16180339887498948 / 10 ^ 16)"
definition LN2 :: double where "LN2 = lit (6931471805599453 / 10 ^ 16)"
definition LN10 :: double where "LN10 = lit (23025850929940457 / 10 ^ 16)"
definition LOG2E :: double where "LOG2E = lit (14426950408889634 / 10 ^ 16)"
definition LOG10E :: double where "LOG10E = lit (4342944819032518 / 10 ^ 16)"
definition EULER :: double where "EULER = lit (5772156649015329 / 10 ^ 16)"
definition CATALAN :: double where "CATALAN = lit (9159655941772190 / 10 ^ 16)"

subsection \<open>Classification: \<^verbatim>\<open>is_nan\<close>, \<^verbatim>\<open>is_infinite\<close>, \<^verbatim>\<open>is_finite\<close>\<close>

text \<open>
  \<^verbatim>\<open>
  def is_finite(a):   return not is_infinite(a) and not is_nan(a)
  def is_infinite(a): return a / a != a / a
  def is_nan(a):      return a != a
  \<close>
  The functions are untyped in effect; the module applies them to floats and to ints,
  and each use is modelled at the type of its argument.
\<close>

definition is_nan :: "double \<Rightarrow> bool" where
  "is_nan a = fne a a"

definition is_infinite :: "double \<Rightarrow> error + bool" where
  "is_infinite a = bindE (truediv a a) (\<lambda>l. bindE (truediv a a) (\<lambda>r. Inr (fne l r)))"

definition is_finite :: "double \<Rightarrow> error + bool" where
  "is_finite a = andE (bindE (is_infinite a) (\<lambda>i. Inr (\<not> i))) (Inr (\<not> is_nan a))"

definition is_nan_int :: "int \<Rightarrow> bool" where
  "is_nan_int a = (a \<noteq> a)"

definition is_infinite_int :: "int \<Rightarrow> error + bool" where
  "is_infinite_int a = bindE (truediv_int a a) (\<lambda>l. bindE (truediv_int a a) (\<lambda>r. Inr (fne l r)))"

definition is_finite_int :: "int \<Rightarrow> error + bool" where
  "is_finite_int a = andE (bindE (is_infinite_int a) (\<lambda>i. Inr (\<not> i))) (Inr (\<not> is_nan_int a))"

subsection \<open>Bit codec: \<^verbatim>\<open>to_bits\<close>, \<^verbatim>\<open>to_float\<close>\<close>

text \<open>
  \<^verbatim>\<open>struct.pack('>f', a)\<close> rounds the double to binary32 (\<^verbatim>\<open>OverflowError\<close> when a
  finite double is too large) and writes its four bytes; \<^verbatim>\<open>struct.unpack('>l', s)\<close> reads
  four bytes as a signed integer. Both directions use the same byte order, so the
  four bytes are modelled as one 32-bit word: bit 31 the sign, bits 30..23 the biased
  exponent, bits 22..0 the fraction.
\<close>

definition single_bits :: "bool \<Rightarrow> rat \<Rightarrow> 32 word" where
  "single_bits s y =
     (let e = (if y = 0 then - 126 else max (ilog2 y) (- 126));
          m = \<lfloor>y / pow2 (e - 23)\<rfloor>
      in word_of_int ((if s then 2 ^ 31 else 0) + (e + 126) * 2 ^ 23 + m))"

definition pack_f :: "double \<Rightarrow> error + 32 word" where
  "pack_f a = (case a of
      NaN \<Rightarrow> Inr 0x7FC00000
    | PInf \<Rightarrow> Inr 0x7F800000
    | NInf \<Rightarrow> Inr 0xFF800000
    | Fin x \<Rightarrow> (case round_single x of
          Fin y \<Rightarrow> Inr (single_bits (x < 0) \<bar>y\<bar>)
        | _ \<Rightarrow> Inl OverflowError))"

definition unpack_l :: "32 word \<Rightarrow> int" where
  "unpack_l w = sint w"

definition pack_l :: "int \<Rightarrow> error + 32 word" where
  "pack_l a = (if - (2 ^ 31) \<le> a \<and> a < 2 ^ 31 then Inr (word_of_int a) else Inl StructError)"

definition unpack_f :: "32 word \<Rightarrow> double" where
  "unpack_f w =
     (let n = uint w; s = n div 2 ^ 31; e = (n div 2 ^ 23) mod 256; f = n mod 2 ^ 23
      in if e = 255 then (if f = 0 then (if s = 0 then PInf else NInf) else NaN)
         else let v = (if e = 0 then of_int f * pow2 (- 149)
                       else of_int (2 ^ 23 + f) * pow2 (e - 150))
              in Fin (if s = 0 then v else - v))"

text \<open>
  \<^verbatim>\<open>
  def to_bits(a):
      assert is_finite(a)
      s = struct.pack('>f', a)
      return struct.unpack('>l', s)[0]
  def to_float(a):
      assert is_finite(a)
      s = struct.pack('>l', a)
      return struct.unpack('>f', s)[0]
  \<close>
\<close>

definition to_bits :: "double \<Rightarrow> error + int" where
  "to_bits a = assertE (is_finite a) (bindE (pack_f a) (\<lambda>s. Inr (unpack_l s)))"

definition to_float :: "int \<Rightarrow> error + double" where
  "to_float a = assertE (is_finite_int a) (bindE (pack_l a) (\<lambda>s. Inr (unpack_f s)))"

subsection \<open>Core arithmetic\<close>

definition to_radian :: "double \<Rightarrow> error + double" where
  "to_radian deg = assertE (is_finite deg)
     (bindE (truediv PI (Fin 180)) (\<lambda>c. Inr (fmul deg c)))"

definition to_degree :: "double \<Rightarrow> error + double" where
  "to_degree rad = assertE (is_finite rad)
     (bindE (truediv (Fin 180) PI) (\<lambda>c. Inr (fmul rad c)))"

text \<open>\<^verbatim>\<open>floor(a) = int(a)\<close>, after the assertion.\<close>

definition floor_py :: "double \<Rightarrow> error + int" where
  "floor_py a = assertE (is_finite a) (float_to_int a)"

text \<open>\<^verbatim>\<open>return int(a + 1) if a > int(a) else int(a)\<close>\<close>

definition ceil :: "double \<Rightarrow> error + int" where
  "ceil a = assertE (is_finite a)
     (bindE (float_to_int a) (\<lambda>n.
        if fgt a (Fin (of_int n)) then float_to_int (fadd a (Fin 1)) else float_to_int a))"

text \<open>\<^verbatim>\<open>return int(a + 1) if a + 0.5 >= int(a + 1) else int(a)\<close>\<close>

definition round_py :: "double \<Rightarrow> error + int" where
  "round_py a = assertE (is_finite a)
     (bindE (float_to_int (fadd a (Fin 1))) (\<lambda>n.
        if fge (fadd a (lit (1 / 2))) (Fin (of_int n)) then float_to_int (fadd a (Fin 1))
        else float_to_int a))"

text \<open>\<^verbatim>\<open>return -a if a < 0 else a\<close>\<close>

definition abs_py :: "double \<Rightarrow> error + double" where
  "abs_py a = assertE (is_finite a) (Inr (if flt a (Fin 0) then fneg a else a))"

text \<open>
  \<^verbatim>\<open>
  def sqrt(a):
      assert is_finite(a) and a >= 0
      if a == 0: return 0
      b, root = a, 0
      for i in range(1, 18):
          b = root = (b + (a / b)) / 2
      return root
  \<close>
\<close>

definition sqrt_step :: "double \<Rightarrow> int \<Rightarrow> double \<times> double \<Rightarrow> error + double \<times> double" where
  "sqrt_step a i s =
     bindE (truediv a (fst s)) (\<lambda>q. bindE (truediv (fadd (fst s) q) (Fin 2)) (\<lambda>v. Inr (v, v)))"

definition sqrt_py :: "double \<Rightarrow> error + double" where
  "sqrt_py a = assertE (andE (is_finite a) (Inr (fge a (Fin 0))))
     (if feq a (Fin 0) then Inr (Fin 0)
      else bindE (forE [1..17] (a, Fin 0) (sqrt_step a)) (\<lambda>s. Inr (snd s)))"

definition isqrt :: "double \<Rightarrow> error + double" where
  "isqrt a = assertE (is_finite a) (bindE (sqrt_py a) (\<lambda>r. truediv (Fin 1) r))"

text \<open>
  \<^verbatim>\<open>
  def qisqrt(a):
      assert is_finite(a)
      x2 = a * 0.5
      y  = a
      i  = to_bits(y)
      i  = 0x5f3759df - (i >> 1)
      y  = to_float(i)
      y  *= (1.5 - (x2 * y * y))
      y  *= (1.5 - (x2 * y * y))
      return y
  \<close>
\<close>

definition qisqrt_refine :: "double \<Rightarrow> double \<Rightarrow> double" where
  "qisqrt_refine x2 y = fmul y (fsub (lit (3 / 2)) (fmul (fmul x2 y) y))"

definition qisqrt :: "double \<Rightarrow> error + double" where
  "qisqrt a = assertE (is_finite a)
     (let x2 = fmul a (lit (1 / 2)) in
      bindE (to_bits a) (\<lambda>i.
      bindE (to_float (0x5f3759df - i div 2)) (\<lambda>y.
      Inr (qisqrt_refine x2 (qisqrt_refine x2 y)))))"

text \<open>
  \<^verbatim>\<open>
  def gcd(a, b):
      assert is_finite(a) and is_finite(b)
      if a < 0: a = -a
      if b < 0: b = -b
      while b != 0:
          temp = b
          b = a % b
          a = temp
      return a
  \<close>
\<close>

function gcd_loop :: "int \<Rightarrow> int \<Rightarrow> int" where
  "gcd_loop a b = (if b \<noteq> 0 then gcd_loop b (a mod b) else a)"
  by pat_completeness auto
termination
  by (relation "measure (\<lambda>(a, b). nat \<bar>b\<bar>)") (auto simp: abs_mod_less)

definition gcd_py :: "int \<Rightarrow> int \<Rightarrow> error + int" where
  "gcd_py a b = assertE (andE (is_finite_int a) (is_finite_int b))
     (Inr (gcd_loop (if a < 0 then - a else a) (if b < 0 then - b else b)))"

text \<open>
  \<^verbatim>\<open>
  def lcm(a, b):
      assert is_finite(a) and is_finite(b)
      result = gcd(a, b)
      if result == 0: return 0
      return a // result * b if a * b >= 0 else -(a // result * b)
  \<close>
\<close>

definition lcm_py :: "int \<Rightarrow> int \<Rightarrow> error + int" where
  "lcm_py a b = assertE (andE (is_finite_int a) (is_finite_int b))
     (bindE (gcd_py a b) (\<lambda>result.
        if result = 0 then Inr 0
        else Inr (if a * b \<ge> 0 then a div result * b else - (a div result * b))))"

text \<open>\<^verbatim>\<open>result = 1; for i in range(2, a + 1): result *= i\<close>\<close>

definition fact_py :: "int \<Rightarrow> error + int" where
  "fact_py a = assertE (is_finite_int a) (forE [2..a] 1 (\<lambda>i result. Inr (result * i)))"

definition rem :: "int \<Rightarrow> int \<Rightarrow> error + int" where
  "rem a b = assertE (andE (is_finite_int a) (andE (is_finite_int b) (Inr (b > 0)))) (Inr (a mod b))"

text \<open>\<^verbatim>\<open>return floor(a / b)\<close>, with the module's own \<^verbatim>\<open>floor\<close>.\<close>

definition fdiv :: "double \<Rightarrow> double \<Rightarrow> error + int" where
  "fdiv a b = assertE (andE (is_finite a) (andE (is_finite b) (Inr (fgt b (Fin 0)))))
     (bindE (truediv a b) floor_py)"

text \<open>
  \<^verbatim>\<open>
  def pow(base, power):
      assert is_finite(base) and is_finite(power)
      if power == 0: return 1
      product = base
      for i in range(1, power): product *= base
      return product
  \<close>
  \<open>pow\<close> is the function at a float base; \<open>pow_int\<close> is the same text at an int base,
  as \<^verbatim>\<open>exp\<close> calls it (\<^verbatim>\<open>pow(2, k)\<close>).
\<close>

definition pow :: "double \<Rightarrow> int \<Rightarrow> error + double" where
  "pow base pwr = assertE (andE (is_finite base) (is_finite_int pwr))
     (if pwr = 0 then Inr (Fin 1)
      else forE [1..pwr - 1] base (\<lambda>i product. Inr (fmul product base)))"

definition pow_int :: "int \<Rightarrow> int \<Rightarrow> error + int" where
  "pow_int base pwr = assertE (andE (is_finite_int base) (is_finite_int pwr))
     (if pwr = 0 then Inr 1
      else forE [1..pwr - 1] base (\<lambda>i product. Inr (product * base)))"

text \<open>
  \<^verbatim>\<open>
  def is_prime(a):
      assert is_finite(a)
      if a < 2: return False
      if a > 2 and a % 2 == 0: return False
      for i in range(2, a // 2):
          if a % i == 0: return False
      return True
  \<close>
\<close>

fun is_prime_loop :: "int \<Rightarrow> int list \<Rightarrow> bool" where
  "is_prime_loop a [] = True"
| "is_prime_loop a (i # xs) = (if a mod i = 0 then False else is_prime_loop a xs)"

definition is_prime :: "int \<Rightarrow> error + bool" where
  "is_prime a = assertE (is_finite_int a)
     (Inr (if a < 2 then False
           else if a > 2 \<and> a mod 2 = 0 then False
           else is_prime_loop a [2..a div 2 - 1]))"

subsection \<open>Trigonometric kernel\<close>

text \<open>
  \<^verbatim>\<open>
  def sin(a):
      assert is_finite(a)
      while a > PI: a -= 2 * PI
      while a < -PI: a += 2 * PI
      result = term = a
      for i in range(1, 8):
          term *= -a * a / ((2 * i) * (2 * i + 1))
          result += term
      return result
  \<close>
  \<^verbatim>\<open>cos\<close> has the same two reduction loops, starts from \<^verbatim>\<open>result = term = 1\<close> and
  divides by \<^verbatim>\<open>(2 * i - 1) * (2 * i)\<close>. Small integer literals convert to floats
  exactly and are written \<open>Fin n\<close>.
\<close>

partial_function (option) reduce_down :: "double \<Rightarrow> double option" where
  "reduce_down a = (if fgt a PI then reduce_down (fsub a (fmul (Fin 2) PI)) else Some a)"

partial_function (option) reduce_up :: "double \<Rightarrow> double option" where
  "reduce_up a = (if flt a (fneg PI) then reduce_up (fadd a (fmul (Fin 2) PI)) else Some a)"

definition series_step :: "double \<Rightarrow> int \<Rightarrow> double \<times> double \<Rightarrow> error + double \<times> double" where
  "series_step a d s =
     bindE (int_to_float d) (\<lambda>df.
     bindE (truediv (fmul (fneg a) a) df) (\<lambda>q.
       let term = fmul (snd s) q in Inr (fadd (fst s) term, term)))"

definition sin_py :: "double \<Rightarrow> (error + double) option" where
  "sin_py a = assertP (is_finite a)
     (case reduce_down a of None \<Rightarrow> None | Some a1 \<Rightarrow>
      (case reduce_up a1 of None \<Rightarrow> None | Some a2 \<Rightarrow>
         Some (bindE (forE [1..7] (a2, a2) (\<lambda>i. series_step a2 ((2 * i) * (2 * i + 1))))
                 (\<lambda>s. Inr (fst s)))))"

definition cos_py :: "double \<Rightarrow> (error + double) option" where
  "cos_py a = assertP (is_finite a)
     (case reduce_down a of None \<Rightarrow> None | Some a1 \<Rightarrow>
      (case reduce_up a1 of None \<Rightarrow> None | Some a2 \<Rightarrow>
         Some (bindE (forE [1..7] (Fin 1, Fin 1) (\<lambda>i. series_step a2 ((2 * i - 1) * (2 * i))))
                 (\<lambda>s. Inr (fst s)))))"

definition tan_py :: "double \<Rightarrow> (error + double) option" where
  "tan_py a = assertP (is_finite a)
     (bindP (sin_py a) (\<lambda>s. bindP (cos_py a) (\<lambda>c. Some (truediv s c))))"

definition sec :: "double \<Rightarrow> (error + double) option" where
  "sec a = assertP (is_finite a) (bindP (cos_py a) (\<lambda>c. Some (truediv (Fin 1) c)))"

definition csc :: "double \<Rightarrow> (error + double) option" where
  "csc a = assertP (is_finite a) (bindP (sin_py a) (\<lambda>s. Some (truediv (Fin 1) s)))"

definition cot_py :: "double \<Rightarrow> (error + double) option" where
  "cot_py a = assertP (is_finite a)
     (bindP (sin_py a) (\<lambda>s. bindP (cos_py a) (\<lambda>c. Some (truediv c s))))"

text \<open>
  \<^verbatim>\<open>
  def asin(a):
      assert is_finite(a) and a >= -1 and a <= 1
      a2 = pow(a, 2)
      return a + a * a2 * (1 / 6 + a2 * (3 / 40 + a2 * (5 / 112 + a2 * 35 / 1152)))
  \<close>
\<close>

definition asin :: "double \<Rightarrow> error + double" where
  "asin a = assertE (andE (is_finite a) (Inr (fge a (Fin (- 1)) \<and> fle a (Fin 1))))
     (bindE (pow a 2) (\<lambda>a2.
      bindE (truediv_int 1 6) (\<lambda>c1.
      bindE (truediv_int 3 40) (\<lambda>c2.
      bindE (truediv_int 5 112) (\<lambda>c3.
      bindE (truediv (fmul a2 (Fin 35)) (Fin 1152)) (\<lambda>t.
        Inr (fadd a (fmul (fmul a a2)
               (fadd c1 (fmul a2 (fadd c2 (fmul a2 (fadd c3 t)))))))))))))"

definition acos :: "double \<Rightarrow> error + double" where
  "acos a = assertE (andE (is_finite a) (Inr (fge a (Fin (- 1)) \<and> fle a (Fin 1))))
     (bindE (truediv PI (Fin 2)) (\<lambda>h. bindE (asin a) (\<lambda>s. Inr (fsub h s))))"

text \<open>\<^verbatim>\<open>return a / (1.28 * pow(a, 2))\<close>\<close>

definition atan :: "double \<Rightarrow> error + double" where
  "atan a = assertE (is_finite a)
     (bindE (pow a 2) (\<lambda>p. truediv a (fmul (lit (128 / 100)) p)))"

text \<open>
  \<^verbatim>\<open>
  def atan2(a, b):
      assert is_finite(a) and is_finite(b)
      if b == 0:
          if a > 0: return PI / 2
          if a < 0: return -PI / 2
          return 0
      result = atan(a / b)
      if b < 0:
          if a >= 0: return result + PI
          return result - PI
      return result
  \<close>
\<close>

definition atan2 :: "double \<Rightarrow> double \<Rightarrow> error + double" where
  "atan2 a b = assertE (andE (is_finite a) (is_finite b))
     (if feq b (Fin 0) then
        (if fgt a (Fin 0) then truediv PI (Fin 2)
         else if flt a (Fin 0) then truediv (fneg PI) (Fin 2)
         else Inr (Fin 0))
      else bindE (bindE (truediv a b) atan) (\<lambda>result.
        if flt b (Fin 0) then
          (if fge a (Fin 0) then Inr (fadd result PI) else Inr (fsub result PI))
        else Inr result))"

subsection \<open>Exponential and logarithm kernel\<close>

text \<open>
  \<^verbatim>\<open>
  def exp(a):
      assert is_finite(a)
      if a == 0: return 1
      k = int(a * LOG2E)
      r = a - k * LN2
      result = r + 1
      term = r
      for i in range(2, 13):
          term *= r / i
          result += term
          if term < 1E-15 * result: break
      return result * pow(2, k)
  \<close>
\<close>

fun exp_loop :: "int list \<Rightarrow> double \<Rightarrow> double \<Rightarrow> double \<Rightarrow> error + double" where
  "exp_loop [] r term result = Inr result"
| "exp_loop (i # xs) r term result =
     bindE (int_to_float i) (\<lambda>d.
     bindE (truediv r d) (\<lambda>q.
       let term' = fmul term q; result' = fadd result term'
       in if flt term' (fmul (lit (1 / 10 ^ 15)) result') then Inr result'
          else exp_loop xs r term' result'))"

definition exp_py :: "double \<Rightarrow> error + double" where
  "exp_py a = assertE (is_finite a)
     (if feq a (Fin 0) then Inr (Fin 1)
      else bindE (float_to_int (fmul a LOG2E)) (\<lambda>k.
           bindE (int_to_float k) (\<lambda>kf.
           let r = fsub a (fmul kf LN2) in
           bindE (exp_loop [2..12] r r (fadd r (Fin 1))) (\<lambda>result.
           bindE (pow_int 2 k) (\<lambda>p.
           bindE (int_to_float p) (\<lambda>pf. Inr (fmul result pf)))))))"

text \<open>
  \<^verbatim>\<open>
  def ln(a):
      assert is_finite(a) and a > 0
      if a == 1: return 0
      exp = 0
      while a > 2:
          a /= 2
          exp += 1
      while a < 1:
          a *= 2
          exp -= 1
      a -= 1
      y = a
      sum = y
      i = 1
      while abs(y) > 1E-15:
          i += 1
          y *= -a * (i - 1) / i
          sum += y
      return sum + exp * LN2
  \<close>
  \<^verbatim>\<open>abs\<close> is the module's own function, with its assertion.
\<close>

partial_function (option) ln_halve :: "double \<Rightarrow> int \<Rightarrow> (error + double \<times> int) option" where
  "ln_halve a e =
     (if fgt a (Fin 2) then
        (case truediv a (Fin 2) of Inl err \<Rightarrow> Some (Inl err) | Inr a' \<Rightarrow> ln_halve a' (e + 1))
      else Some (Inr (a, e)))"

partial_function (option) ln_double :: "double \<Rightarrow> int \<Rightarrow> (error + double \<times> int) option" where
  "ln_double a e =
     (if flt a (Fin 1) then ln_double (fmul a (Fin 2)) (e - 1) else Some (Inr (a, e)))"

text \<open>The range reduction of \<^verbatim>\<open>ln\<close>: both loops, from \<^verbatim>\<open>exp = 0\<close>.\<close>

definition ln_reduce :: "double \<Rightarrow> (error + double \<times> int) option" where
  "ln_reduce a = bindP (ln_halve a 0) (\<lambda>s. ln_double (fst s) (snd s))"

definition ln_term :: "double \<Rightarrow> int \<Rightarrow> error + double" where
  "ln_term a i =
     bindE (int_to_float (i - 1)) (\<lambda>n.
     bindE (int_to_float i) (\<lambda>d. truediv (fmul (fneg a) n) d))"

partial_function (option) ln_series :: "double \<Rightarrow> double \<Rightarrow> double \<Rightarrow> int \<Rightarrow> (error + double) option" where
  "ln_series a y acc i =
     (case abs_py y of Inl err \<Rightarrow> Some (Inl err) | Inr m \<Rightarrow>
        if fgt m (lit (1 / 10 ^ 15)) then
          (case ln_term a (i + 1) of Inl err \<Rightarrow> Some (Inl err) | Inr q \<Rightarrow>
             ln_series a (fmul y q) (fadd acc (fmul y q)) (i + 1))
        else Some (Inr acc))"

definition ln_py :: "double \<Rightarrow> (error + double) option" where
  "ln_py a = assertP (andE (is_finite a) (Inr (fgt a (Fin 0))))
     (if feq a (Fin 1) then Some (Inr (Fin 0))
      else bindP (ln_reduce a) (\<lambda>s.
           let a' = fsub (fst s) (Fin 1) in
           bindP (ln_series a' a' a' 1) (\<lambda>acc.
           Some (bindE (int_to_float (snd s)) (\<lambda>ef. Inr (fadd acc (fmul ef LN2)))))))"

text \<open>
  \<^verbatim>\<open>log(a, base) = ln(a) / ln(base)\<close>. The base is an int; \<^verbatim>\<open>ln\<close> receives it converted
  (the two agree below \<open>2 ^ 1024\<close>).
\<close>

definition log_py :: "double \<Rightarrow> int \<Rightarrow> (error + double) option" where
  "log_py a base = assertP (andE (is_finite a) (is_finite_int base))
     (bindP (ln_py a) (\<lambda>x.
      bindP (bindP (Some (int_to_float base)) ln_py) (\<lambda>y. Some (truediv x y))))"

definition log2 :: "double \<Rightarrow> (error + double) option" where
  "log2 a = assertP (is_finite a) (bindP (ln_py a) (\<lambda>x. Some (truediv x LN2)))"

definition log10 :: "double \<Rightarrow> (error + double) option" where
  "log10 a = assertP (is_finite a) (bindP (ln_py a) (\<lambda>x. Some (truediv x LN10)))"

subsection \<open>Hyperbolic kernel\<close>

text \<open>
  \<^verbatim>\<open>
  def sinh(a):
      assert is_finite(a)
      if a == 0: return 0
      ea = exp(a)
      return (ea - (1 / ea)) / 2
  \<close>
  and the others alike: \<^verbatim>\<open>cosh\<close> \<^verbatim>\<open>(ea + (1 / ea)) / 2\<close>, \<^verbatim>\<open>tanh\<close> with
  \<^verbatim>\<open>ea = exp(2 * a)\<close> and \<^verbatim>\<open>(ea - 1) / (ea + 1)\<close>, \<^verbatim>\<open>sech\<close> \<^verbatim>\<open>2 / (ea + (1 / ea))\<close>,
  \<^verbatim>\<open>csch\<close> \<^verbatim>\<open>2 / (ea - (1 / ea))\<close> and \<^verbatim>\<open>coth\<close> \<^verbatim>\<open>(ea + 1) / (ea - 1)\<close>, the last two
  without the test for zero.
\<close>

definition sinh_py :: "double \<Rightarrow> error + double" where
  "sinh_py a = assertE (is_finite a)
     (if feq a (Fin 0) then Inr (Fin 0)
      else bindE (exp_py a) (\<lambda>ea. bindE (truediv (Fin 1) ea) (\<lambda>i. truediv (fsub ea i) (Fin 2))))"

definition cosh_py :: "double \<Rightarrow> error + double" where
  "cosh_py a = assertE (is_finite a)
     (if feq a (Fin 0) then Inr (Fin 1)
      else bindE (exp_py a) (\<lambda>ea. bindE (truediv (Fin 1) ea) (\<lambda>i. truediv (fadd ea i) (Fin 2))))"

definition tanh_py :: "double \<Rightarrow> error + double" where
  "tanh_py a = assertE (is_finite a)
     (if feq a (Fin 0) then Inr (Fin 0)
      else bindE (exp_py (fmul (Fin 2) a)) (\<lambda>ea. truediv (fsub ea (Fin 1)) (fadd ea (Fin 1))))"

definition sech :: "double \<Rightarrow> error + double" where
  "sech a = assertE (is_finite a)
     (if feq a (Fin 0) then Inr (Fin 1)
      else bindE (exp_py a) (\<lambda>ea. bindE (truediv (Fin 1) ea) (\<lambda>i. truediv (Fin 2) (fadd ea i))))"

definition csch :: "double \<Rightarrow> error + double" where
  "csch a = assertE (is_finite a)
     (bindE (exp_py a) (\<lambda>ea. bindE (truediv (Fin 1) ea) (\<lambda>i. truediv (Fin 2) (fsub ea i))))"

definition coth :: "double \<Rightarrow> error + double" where
  "coth a = assertE (is_finite a)
     (bindE (exp_py (fmul (Fin 2) a)) (\<lambda>ea. truediv (fadd ea (Fin 1)) (fsub ea (Fin 1))))"

text \<open>
  \<^verbatim>\<open>asinh(a) = ln(a + sqrt(a * a + 1))\<close>, \<^verbatim>\<open>acosh(a) = ln(a + sqrt(a * a - 1))\<close> for
  \<^verbatim>\<open>a >= 1\<close>, \<^verbatim>\<open>atanh(a) = 0.5 * ln((1 + a) / (1 - a))\<close> for \<^verbatim>\<open>a > -1 and a < 1\<close>.
\<close>

definition asinh :: "double \<Rightarrow> (error + double) option" where
  "asinh a = assertP (is_finite a)
     (bindP (Some (sqrt_py (fadd (fmul a a) (Fin 1)))) (\<lambda>s. ln_py (fadd a s)))"

definition acosh :: "double \<Rightarrow> (error + double) option" where
  "acosh a = assertP (andE (is_finite a) (Inr (fge a (Fin 1))))
     (bindP (Some (sqrt_py (fsub (fmul a a) (Fin 1)))) (\<lambda>s. ln_py (fadd a s)))"

definition atanh :: "double \<Rightarrow> (error + double) option" where
  "atanh a = assertP (andE (is_finite a) (Inr (fgt a (Fin (- 1)) \<and> flt a (Fin 1))))
     (bindP (bindP (Some (truediv (fadd (Fin 1) a) (fsub (Fin 1) a))) ln_py)
        (\<lambda>l. Some (Inr (fmul (lit (1 / 2)) l))))"

subsection \<open>\<^verbatim>\<open>min\<close>, \<^verbatim>\<open>max\<close>, \<^verbatim>\<open>clamp\<close>\<close>

definition min_py :: "double \<Rightarrow> double \<Rightarrow> error + double" where
  "min_py a b = assertE (andE (is_finite a) (is_finite b)) (Inr (if flt a b then a else b))"

definition max_py :: "double \<Rightarrow> double \<Rightarrow> error + double" where
  "max_py a b = assertE (andE (is_finite a) (is_finite b)) (Inr (if fgt a b then a else b))"

definition clamp :: "double \<Rightarrow> double \<Rightarrow> double \<Rightarrow> error + double" where
  "clamp v min_val max_val =
     assertE (andE (is_finite v) (andE (is_finite min_val) (is_finite max_val)))
       (if flt v min_val then Inr min_val else if fgt v max_val then Inr max_val else Inr v)"

subsection \<open>Statistics kernel: \<^verbatim>\<open>median\<close>\<close>

text \<open>
  \<^verbatim>\<open>
  def median(data):
      assert is_finite(len(data)) and len(data) > 0
      size = len(data)
      for i in range(size - 1):
          for j in range(size - i - 1):
              if data[j] > data[j + 1]:
                  data[j], data[j + 1] = data[j + 1], data[j]
      if size % 2 == 0: return (data[size // 2 - 1] + data[size // 2]) / 2
      else: return data[size // 2]
  \<close>
  The list is the caller's and is changed in place: the model returns it with the
  result. An index outside the list raises \<^verbatim>\<open>IndexError\<close>.
\<close>

definition getE :: "'a list \<Rightarrow> nat \<Rightarrow> error + 'a" where
  "getE xs i = (if i < length xs then Inr (xs ! i) else Inl IndexError)"




subsection \<open>Statistics kernel: \<^verbatim>\<open>sum\<close>, \<^verbatim>\<open>mean\<close>, \<^verbatim>\<open>mode\<close>, \<^verbatim>\<open>stddev\<close>\<close>

text \<open>
  \<^verbatim>\<open>
  def sum(data):
      assert is_finite(len(data)) and len(data) > 0
      sum = 0
      for i in range(len(data)):
          sum += data[i]
      return sum

  def mean(data):
      assert is_finite(len(data)) and len(data) > 0
      return sum(data) / len(data)
  \<close>
  The accumulator starts as the int \<open>0\<close>, which the first addition converts. The module's
  \<^verbatim>\<open>sum\<close> replaces the built-in one, so \<^verbatim>\<open>mean\<close> calls it. None of the two looks at the
  elements before it adds them.
\<close>

definition sum_py :: "double list \<Rightarrow> error + double" where
  "sum_py data =
     assertE (andE (is_finite_int (int (length data))) (Inr (length data > 0)))
       (forE [0..<length data] (Fin 0) (\<lambda>i acc. bindE (getE data i) (\<lambda>x. Inr (fadd acc x))))"

definition mean :: "double list \<Rightarrow> error + double" where
  "mean data =
     assertE (andE (is_finite_int (int (length data))) (Inr (length data > 0)))
       (bindE (sum_py data) (\<lambda>s.
        bindE (int_to_float (int (length data))) (\<lambda>n. truediv s n)))"

text \<open>
  \<^verbatim>\<open>
  def mode(data):
      assert is_finite(len(data)) and len(data) > 0
      mode = data[0]
      max_count = 1
      current_count = 1
      for i in range(1, len(data)):
          if data[i] == data[i - 1]:
              current_count += 1
          else:
              if current_count > max_count:
                  max_count = current_count
                  mode = data[i - 1]
              current_count = 1
      if current_count > max_count:
          mode = data[-1]
      return mode
  \<close>
  The state of the loop is \<open>(mode, max_count, current_count)\<close>.
\<close>

definition mode_step :: "double list \<Rightarrow> nat \<Rightarrow> double \<times> int \<times> int \<Rightarrow> error + double \<times> int \<times> int" where
  "mode_step data i s =
     (case s of (m, max_count, current_count) \<Rightarrow>
        bindE (getE data i) (\<lambda>x.
        bindE (getE data (i - 1)) (\<lambda>y.
          if feq x y then Inr (m, max_count, current_count + 1)
          else if current_count > max_count then Inr (y, current_count, 1)
          else Inr (m, max_count, 1))))"

definition mode :: "double list \<Rightarrow> error + double" where
  "mode data =
     assertE (andE (is_finite_int (int (length data))) (Inr (length data > 0)))
       (bindE (getE data 0) (\<lambda>m0.
        bindE (forE [1..<length data] (m0, 1, 1) (mode_step data)) (\<lambda>s.
          case s of (m, max_count, current_count) \<Rightarrow>
            if current_count > max_count then getE data (length data - 1) else Inr m)))"

text \<open>
  \<^verbatim>\<open>
  def stddev(data):
      assert is_finite(len(data)) and len(data) > 1
      size = len(data)
      m = mean(data)
      sum = 0
      for i in range(size):
          diff = data[i] - m
          sum += diff * diff
      return sqrt(sum / (size - 1))
  \<close>
\<close>

definition stddev_step :: "double list \<Rightarrow> double \<Rightarrow> nat \<Rightarrow> double \<Rightarrow> error + double" where
  "stddev_step data m i acc =
     bindE (getE data i) (\<lambda>x. let diff = fsub x m in Inr (fadd acc (fmul diff diff)))"

definition stddev :: "double list \<Rightarrow> error + double" where
  "stddev data =
     assertE (andE (is_finite_int (int (length data))) (Inr (length data > 1)))
       (let n = length data in
        bindE (mean data) (\<lambda>m.
        bindE (forE [0..<n] (Fin 0) (stddev_step data m)) (\<lambda>acc.
        bindE (int_to_float (int n - 1)) (\<lambda>d.
        bindE (truediv acc d) sqrt_py))))"

section \<open>Basic facts about the model\<close>

lemma bindE_simps [simp]: "bindE (Inl e) f = Inl e" "bindE (Inr v) f = f v"
  by (simp_all add: bindE_def)

lemma andE_simps [simp]:
  "andE (Inl e) y = Inl e" "andE (Inr True) y = y" "andE (Inr False) y = Inr False"
  by (simp_all add: andE_def)

lemma assertE_simps [simp]:
  "assertE (Inl e) k = Inl e" "assertE (Inr True) k = k"
  "assertE (Inr False) k = Inl AssertionError"
  by (simp_all add: assertE_def)

lemma bindP_simps [simp]:
  "bindP None f = None" "bindP (Some (Inl e)) f = Some (Inl e)" "bindP (Some (Inr v)) f = f v"
  by (simp_all add: bindP_def)

lemma assertP_simps [simp]:
  "assertP (Inl e) k = Some (Inl e)" "assertP (Inr True) k = k"
  "assertP (Inr False) k = Some (Inl AssertionError)"
  by (simp_all add: assertP_def)

lemma feq_Fin [simp]: "feq (Fin x) (Fin y) = (x = y)"
  by (simp add: feq_def)

lemma fle_Fin [simp]: "fle (Fin x) (Fin y) = (x \<le> y)"
  by (auto simp: fle_def)

lemma fgt_Fin [simp]: "fgt (Fin x) (Fin y) = (y < x)"
  by (simp add: fgt_def)

lemma fge_Fin [simp]: "fge (Fin x) (Fin y) = (y \<le> x)"
  by (simp add: fge_def)

lemma round_double_one: "round_double 1 = Fin 1"
  by code_simp

text \<open>The classification of every float and every int.\<close>

lemma is_infinite_simps [simp]:
  "is_infinite (Fin 0) = Inl ZeroDivisionError"
  "x \<noteq> 0 \<Longrightarrow> is_infinite (Fin x) = Inr False"
  "is_infinite PInf = Inr True" "is_infinite NInf = Inr True" "is_infinite NaN = Inr True"
  by (simp_all add: is_infinite_def round_double_one fne_def feq_def)

lemma is_nan_simps [simp]:
  "is_nan (Fin x) = False" "is_nan PInf = False" "is_nan NInf = False" "is_nan NaN = True"
  by (simp_all add: is_nan_def fne_def feq_def)

lemma is_finite_simps [simp]:
  "is_finite (Fin 0) = Inl ZeroDivisionError"
  "x \<noteq> 0 \<Longrightarrow> is_finite (Fin x) = Inr True"
  "is_finite PInf = Inr False" "is_finite NInf = Inr False" "is_finite NaN = Inr False"
  by (simp_all add: is_finite_def)

lemma is_infinite_int_simps [simp]:
  "is_infinite_int 0 = Inl ZeroDivisionError"
  "n \<noteq> 0 \<Longrightarrow> is_infinite_int n = Inr False"
  by (simp_all add: is_infinite_int_def truediv_int_def round_double_one fne_def feq_def)

lemma is_finite_int_simps [simp]:
  "is_finite_int 0 = Inl ZeroDivisionError"
  "n \<noteq> 0 \<Longrightarrow> is_finite_int n = Inr True"
  by (simp_all add: is_finite_int_def is_nan_int_def)

section \<open>Zero is rejected by the finiteness test\<close>

text \<open>
  Claim C1. \<^verbatim>\<open>is_infinite(0)\<close> divides zero by zero and raises \<^verbatim>\<open>ZeroDivisionError\<close>
  instead of returning a boolean, so \<^verbatim>\<open>is_finite(0)\<close> raises too, for the float and for
  the int; every exposed function that begins with a finiteness assertion raises
  \<^verbatim>\<open>ZeroDivisionError\<close> when its (first) argument is zero, whatever its other
  arguments, and so do \<^verbatim>\<open>pow(2, 0)\<close> and \<^verbatim>\<open>gcd(12, 0)\<close>: the tests for zero in the bodies
  are never reached.
\<close>

theorem zero_argument_raises:
  "is_infinite (Fin 0) = Inl ZeroDivisionError \<and> is_finite (Fin 0) = Inl ZeroDivisionError
   \<and> is_infinite_int 0 = Inl ZeroDivisionError \<and> is_finite_int 0 = Inl ZeroDivisionError
   \<and> to_bits (Fin 0) = Inl ZeroDivisionError \<and> to_float 0 = Inl ZeroDivisionError
   \<and> to_radian (Fin 0) = Inl ZeroDivisionError \<and> to_degree (Fin 0) = Inl ZeroDivisionError
   \<and> floor_py (Fin 0) = Inl ZeroDivisionError \<and> ceil (Fin 0) = Inl ZeroDivisionError
   \<and> round_py (Fin 0) = Inl ZeroDivisionError \<and> abs_py (Fin 0) = Inl ZeroDivisionError
   \<and> sqrt_py (Fin 0) = Inl ZeroDivisionError \<and> isqrt (Fin 0) = Inl ZeroDivisionError
   \<and> qisqrt (Fin 0) = Inl ZeroDivisionError
   \<and> gcd_py 0 b = Inl ZeroDivisionError \<and> gcd_py 12 0 = Inl ZeroDivisionError
   \<and> lcm_py 0 b = Inl ZeroDivisionError \<and> fact_py 0 = Inl ZeroDivisionError
   \<and> rem 0 b = Inl ZeroDivisionError \<and> fdiv (Fin 0) y = Inl ZeroDivisionError
   \<and> pow (Fin 0) p = Inl ZeroDivisionError \<and> pow (Fin 2) 0 = Inl ZeroDivisionError
   \<and> is_prime 0 = Inl ZeroDivisionError
   \<and> sin_py (Fin 0) = Some (Inl ZeroDivisionError) \<and> cos_py (Fin 0) = Some (Inl ZeroDivisionError)
   \<and> tan_py (Fin 0) = Some (Inl ZeroDivisionError) \<and> sec (Fin 0) = Some (Inl ZeroDivisionError)
   \<and> csc (Fin 0) = Some (Inl ZeroDivisionError) \<and> cot_py (Fin 0) = Some (Inl ZeroDivisionError)
   \<and> sinh_py (Fin 0) = Inl ZeroDivisionError \<and> cosh_py (Fin 0) = Inl ZeroDivisionError
   \<and> tanh_py (Fin 0) = Inl ZeroDivisionError \<and> sech (Fin 0) = Inl ZeroDivisionError
   \<and> csch (Fin 0) = Inl ZeroDivisionError \<and> coth (Fin 0) = Inl ZeroDivisionError
   \<and> asin (Fin 0) = Inl ZeroDivisionError \<and> acos (Fin 0) = Inl ZeroDivisionError
   \<and> atan (Fin 0) = Inl ZeroDivisionError \<and> atan2 (Fin 0) y = Inl ZeroDivisionError
   \<and> asinh (Fin 0) = Some (Inl ZeroDivisionError) \<and> acosh (Fin 0) = Some (Inl ZeroDivisionError)
   \<and> atanh (Fin 0) = Some (Inl ZeroDivisionError)
   \<and> exp_py (Fin 0) = Inl ZeroDivisionError \<and> ln_py (Fin 0) = Some (Inl ZeroDivisionError)
   \<and> log_py (Fin 0) n = Some (Inl ZeroDivisionError) \<and> log2 (Fin 0) = Some (Inl ZeroDivisionError)
   \<and> log10 (Fin 0) = Some (Inl ZeroDivisionError)
   \<and> min_py (Fin 0) y = Inl ZeroDivisionError \<and> max_py (Fin 0) y = Inl ZeroDivisionError
   \<and> clamp (Fin 0) lo hi = Inl ZeroDivisionError"
  by (simp add: to_bits_def to_float_def to_radian_def to_degree_def floor_py_def ceil_def
      round_py_def abs_py_def sqrt_py_def isqrt_def qisqrt_def gcd_py_def lcm_py_def fact_py_def
      rem_def fdiv_def pow_def is_prime_def sin_py_def cos_py_def tan_py_def sec_def csc_def
      cot_py_def sinh_py_def cosh_py_def tanh_py_def sech_def csch_def coth_def asin_def acos_def
      atan_def atan2_def asinh_def acosh_def atanh_def exp_py_def ln_py_def log_py_def log2_def
      log10_def min_py_def max_py_def clamp_def)

text \<open>
  Claim C2. \<^verbatim>\<open>sqrt(0)\<close> is said to return \<open>0\<close> through the test \<^verbatim>\<open>if a == 0: return 0\<close>.
  The assertion before the test evaluates \<^verbatim>\<open>is_finite(0)\<close>, which raises: the call ends
  in \<^verbatim>\<open>ZeroDivisionError\<close> and returns nothing.
\<close>

theorem sqrt_zero_raises: "sqrt_py (Fin 0) = Inl ZeroDivisionError"
  by (simp add: sqrt_py_def)

text \<open>
  Claim C6. \<^verbatim>\<open>atan2(a, 0)\<close> is said to return \<open>\<plusminus>\<pi>/2\<close> or \<open>0\<close> through the branch
  \<^verbatim>\<open>if b == 0\<close>. The assertion evaluates \<^verbatim>\<open>is_finite(b)\<close> first, which raises for
  \<^verbatim>\<open>b == 0\<close>: for positive, negative and zero \<open>a\<close> the call raises, and for no \<open>a\<close>
  at all does it return a value.
\<close>

theorem atan2_zero_divisor_raises:
  "atan2 (Fin 1) (Fin 0) = Inl ZeroDivisionError
   \<and> atan2 (Fin (- 1)) (Fin 0) = Inl ZeroDivisionError
   \<and> atan2 (Fin 0) (Fin 0) = Inl ZeroDivisionError
   \<and> isl (atan2 a (Fin 0))"
  by (cases a) (simp_all add: atan2_def)

text \<open>
  Claim C4. The round trip \<^verbatim>\<open>exp(ln(a))\<close> is said to give back \<open>a\<close> up to \<open>1e-9\<close> for
  positive \<open>a\<close>. At \<open>a = 1\<close> the logarithm returns \<open>0\<close> through its own short cut, and
  \<^verbatim>\<open>exp(0)\<close> raises \<^verbatim>\<open>ZeroDivisionError\<close> in its assertion, before its short cut
  \<^verbatim>\<open>if a == 0: return 1\<close>.
\<close>

theorem exp_ln_one_raises:
  "ln_py (Fin 1) = Some (Inr (Fin 0)) \<and> exp_py (Fin 0) = Inl ZeroDivisionError"
  by (simp add: ln_py_def exp_py_def)

section \<open>\<^verbatim>\<open>pow\<close> with a negative power\<close>




section \<open>NaN and infinite arguments\<close>


lemma assertP_fails: "c \<noteq> Inr True \<Longrightarrow> \<exists>e. assertP c k = Some (Inl e)"
  by (cases c) (auto simp: assertP_def)







section \<open>\<^verbatim>\<open>median\<close>\<close>







lemma truediv_by_nonzero: "y \<noteq> 0 \<Longrightarrow> \<exists>r. truediv a (Fin y) = Inr r"
  by (cases a) auto





section \<open>Rounding\<close>

subsection \<open>Powers of two and the binary exponent\<close>

lemma pow2_powi: "pow2 e = 2 powi e"
proof (cases "0 \<le> e")
  case True
  then show ?thesis by (simp add: pow2_def power_int_def)
next
  case False
  have "(1::rat) / 2 ^ nat (- e) = inverse 2 ^ nat (- e)"
    by (simp add: power_one_over inverse_eq_divide)
  with False show ?thesis by (simp add: pow2_def power_int_def)
qed

lemma pow2_pos [simp]: "0 < pow2 e"
  by (simp add: pow2_powi power_int_def)

lemma pow2_nonzero [simp]: "pow2 e \<noteq> 0"
  by (metis pow2_pos less_irrefl)

lemma pow2_add: "pow2 (a + b) = pow2 a * pow2 b"
  by (simp add: pow2_powi power_int_add)

lemma pow2_diff: "pow2 (a - b) = pow2 a / pow2 b"
  by (simp add: pow2_powi power_int_diff)

lemma pow2_zero [simp]: "pow2 0 = 1"
  by (simp add: pow2_def)

lemma pow2_one [simp]: "pow2 1 = 2"
  by (simp add: pow2_def)

lemma pow2_less_iff [simp]: "pow2 a < pow2 b \<longleftrightarrow> a < b"
  unfolding pow2_powi
  by (metis power_int_increasing power_int_strict_increasing not_less one_le_numeral
      one_less_numeral_iff semiring_norm(76))

lemma pow2_le_iff [simp]: "pow2 a \<le> pow2 b \<longleftrightarrow> a \<le> b"
  by (metis pow2_less_iff not_less)

lemma pow2_nat: "0 \<le> e \<Longrightarrow> pow2 e = of_int (2 ^ nat e)"
  by (simp add: pow2_def)

lemma bitlen_pow2_bounds:
  fixes p :: int
  assumes "0 < p"
  shows "pow2 (bitlen p - 1) \<le> of_int p" "of_int p < pow2 (bitlen p)"
proof -
  from assms have b1: "1 \<le> bitlen p"
    by (auto simp: bitlen_alt_def)
  from bitlen_bounds [OF assms] have lo: "2 ^ nat (bitlen p - 1) \<le> p" and hi: "p < 2 ^ nat (bitlen p)"
    by auto
  have "(of_int (2 ^ nat (bitlen p - 1)) :: rat) \<le> of_int p"
    using lo by (simp only: of_int_le_iff)
  then show "pow2 (bitlen p - 1) \<le> of_int p"
    using b1 by (simp add: pow2_def)
  have "(of_int p :: rat) < of_int (2 ^ nat (bitlen p))"
    using hi by (simp only: of_int_less_iff)
  then show "of_int p < pow2 (bitlen p)"
    using b1 by (simp add: pow2_def)
qed

lemma ilog2_bounds:
  assumes "0 < x"
  shows "pow2 (ilog2 x) \<le> x" "x < pow2 (ilog2 x + 1)"
proof -
  obtain p q where pq: "quotient_of x = (p, q)"
    by (cases "quotient_of x")
  then have q: "0 < q" and x: "x = of_int p / of_int q"
    by (auto simp: quotient_of_denom_pos quotient_of_div)
  with assms have p: "0 < p"
    by (simp add: zero_less_divide_iff)
  define g where "g = bitlen p - bitlen q"
  have il: "ilog2 x = (if pow2 g \<le> x then g else g - 1)"
    by (simp add: ilog2_def pq g_def Let_def)
  note bp = bitlen_pow2_bounds [OF p] and bq = bitlen_pow2_bounds [OF q]
  have qpos: "(0::rat) < of_int q"
    using q by simp
  have "x < pow2 (bitlen p) / pow2 (bitlen q - 1)"
    unfolding x using bp(2) bq(1) qpos p by (intro frac_less) auto
  also have "\<dots> = pow2 (g + 1)"
    by (simp add: g_def pow2_diff [symmetric] algebra_simps)
  finally have up: "x < pow2 (g + 1)" .
  have "pow2 (bitlen p - 1) / pow2 (bitlen q) < x"
    unfolding x using bp(1) bq(2) qpos p by (intro frac_less2) auto
  moreover have "pow2 (bitlen p - 1) / pow2 (bitlen q) = pow2 (g - 1)"
    by (simp add: g_def pow2_diff [symmetric] algebra_simps)
  ultimately have lo: "pow2 (g - 1) < x"
    by simp
  show "pow2 (ilog2 x) \<le> x"
    using il lo by (auto intro: less_imp_le)
  show "x < pow2 (ilog2 x + 1)"
    using il up by (auto simp: not_le)
qed

lemma ilog2_unique:
  assumes "pow2 e \<le> x" "x < pow2 (e + 1)"
  shows "ilog2 x = e"
proof -
  have pos: "0 < x"
    using assms(1) pow2_pos [of e] by linarith
  note b = ilog2_bounds [OF pos]
  have "pow2 e < pow2 (ilog2 x + 1)"
    using assms(1) b(2) by linarith
  then have 1: "e < ilog2 x + 1" by simp
  have "pow2 (ilog2 x) < pow2 (e + 1)"
    using assms(2) b(1) by linarith
  then have 2: "ilog2 x < e + 1" by simp
  from 1 2 show ?thesis by linarith
qed

lemma ilog2_mono:
  assumes "0 < x" "x \<le> y"
  shows "ilog2 x \<le> ilog2 y"
proof -
  have "pow2 (ilog2 x) < pow2 (ilog2 y + 1)"
    using ilog2_bounds(1) [OF assms(1)] ilog2_bounds(2) [of y] assms by linarith
  then show ?thesis by simp
qed

lemma ilog2_ge: "pow2 e \<le> x \<Longrightarrow> e \<le> ilog2 x"
proof -
  assume a: "pow2 e \<le> x"
  then have pos: "0 < x" using pow2_pos [of e] by linarith
  have "pow2 e < pow2 (ilog2 x + 1)"
    using a ilog2_bounds(2) [OF pos] by linarith
  then show ?thesis by simp
qed

lemma ilog2_less: "0 < x \<Longrightarrow> x < pow2 e \<Longrightarrow> ilog2 x < e"
proof -
  assume pos: "0 < x" and a: "x < pow2 e"
  have "pow2 (ilog2 x) < pow2 e"
    using a ilog2_bounds(1) [OF pos] by linarith
  then show ?thesis by simp
qed

lemma ilog2_scale:
  assumes "0 < x"
  shows "ilog2 (x * pow2 k) = ilog2 x + k"
proof (rule ilog2_unique)
  show "pow2 (ilog2 x + k) \<le> x * pow2 k"
    using ilog2_bounds(1) [OF assms] by (simp add: pow2_add)
  show "x * pow2 k < pow2 (ilog2 x + k + 1)"
    using ilog2_bounds(2) [OF assms] by (simp add: pow2_add algebra_simps)
qed

subsection \<open>Rounding to an integer\<close>

lemma rne_of_int [simp]: "rne (of_int n) = n"
  by (simp add: rne_def)

lemma rne_ge:
  assumes "of_int n \<le> x"
  shows "n \<le> rne x"
proof -
  have "n \<le> \<lfloor>x\<rfloor>" using assms by (simp add: le_floor_iff)
  then show ?thesis by (auto simp: rne_def Let_def)
qed

lemma rne_le:
  assumes "x \<le> of_int n"
  shows "rne x \<le> n"
proof (cases "x = of_int n")
  case True
  then show ?thesis by simp
next
  case False
  with assms have "x < of_int n" by simp
  then have "\<lfloor>x\<rfloor> < n" by (simp add: floor_less_iff)
  then show ?thesis by (auto simp: rne_def Let_def)
qed

lemma rne_minus: "rne (- x) = - rne x"
proof (cases "x = of_int \<lfloor>x\<rfloor>")
  case True
  then have "rne x = \<lfloor>x\<rfloor>" "rne (- x) = - \<lfloor>x\<rfloor>"
    by (metis rne_of_int, metis rne_of_int of_int_minus)
  then show ?thesis by simp
next
  case False
  define f where "f = \<lfloor>x\<rfloor>"
  define d where "d = x - of_int f"
  have le: "of_int f \<le> x" and up: "x < of_int f + 1"
    unfolding f_def by linarith+
  have ne: "of_int f \<noteq> x"
    using False unfolding f_def by metis
  from le ne have "of_int f < x"
    by (rule order.not_eq_order_implies_strict [rotated])
  with up have d: "0 < d" "d < 1"
    unfolding d_def by linarith+
  have fl: "\<lfloor>- x\<rfloor> = - f - 1"
    using d by (intro floor_unique) (auto simp: d_def)
  have d': "- x - of_int (- f - 1) = 1 - d"
    by (simp add: d_def)
  have 1: "rne x = (if d < 1 / 2 then f else if 1 / 2 < d then f + 1 else if even f then f else f + 1)"
    by (simp add: rne_def Let_def f_def d_def)
  have 2: "rne (- x) = (if 1 - d < 1 / 2 then - f - 1 else if 1 / 2 < 1 - d then - f
       else if even (- f - 1) then - f - 1 else - f)"
    unfolding rne_def Let_def fl d' by simp
  show ?thesis
    unfolding 1 2 by auto
qed

subsection \<open>Rounding to a format\<close>

lemma quantum_pos [simp]: "0 < quantum p emin x"
  by (simp add: quantum_def)

lemma quantum_nonzero [simp]: "quantum p emin x \<noteq> 0"
  by (simp add: quantum_def)

lemma quantum_minus [simp]: "quantum p emin (- x) = quantum p emin x"
  by (simp add: quantum_def)

lemma round_fmt_zero [simp]: "round_fmt p emin emax 0 = Fin 0"
  by (simp add: round_fmt_def)

lemma round_fmt_minus: "round_fmt p emin emax (- x) = fneg (round_fmt p emin emax x)"
  by (simp add: round_fmt_def Let_def rne_minus)

text \<open>A value that rounding keeps is an integer multiple of its spacing, and conversely.\<close>

lemma round_fmt_exactD:
  assumes "round_fmt p emin emax x = Fin x" "x \<noteq> 0"
  shows "x / quantum p emin x = of_int (rne (x / quantum p emin x))" "\<bar>x\<bar> < pow2 (emax + 1)"
proof -
  let ?y = "of_int (rne (x / quantum p emin x)) * quantum p emin x"
  from assms have "\<not> pow2 (emax + 1) \<le> \<bar>?y\<bar>" and y: "?y = x"
    by (auto simp: round_fmt_def Let_def split: if_splits)
  then show "\<bar>x\<bar> < pow2 (emax + 1)" by simp
  from y show "x / quantum p emin x = of_int (rne (x / quantum p emin x))"
    by (simp add: nonzero_divide_eq_eq)
qed

lemma round_fmt_exactI:
  assumes "x / quantum p emin x = of_int n" "\<bar>x\<bar> < pow2 (emax + 1)"
  shows "round_fmt p emin emax x = Fin x"
proof (cases "x = 0")
  case True
  then show ?thesis by simp
next
  case False
  have "x = of_int n * quantum p emin x"
    using assms(1) by (simp add: nonzero_divide_eq_eq)
  moreover have "rne (x / quantum p emin x) = n"
    by (simp add: assms(1))
  ultimately have "of_int (rne (x / quantum p emin x)) * quantum p emin x = x"
    by simp
  with False assms(2) show ?thesis
    by (simp add: round_fmt_def Let_def)
qed

text \<open>A multiple of \<open>pow2 k\<close> that needs at most \<open>p\<close> bits is kept.\<close>

lemma round_fmt_multiple:
  assumes x: "x = of_int n * pow2 k" and p: "1 \<le> p"
    and k: "emin - (int p - 1) \<le> k"
    and b: "\<bar>x\<bar> \<le> pow2 (k + int p)" and m: "\<bar>x\<bar> < pow2 (emax + 1)"
  shows "round_fmt p emin emax x = Fin x"
proof (cases "x = 0")
  case True
  then show ?thesis by simp
next
  case False
  then have pos: "0 < \<bar>x\<bar>" by simp
  define e where "e = ilog2 \<bar>x\<bar>"
  have e_le: "e \<le> k + int p"
  proof -
    have "pow2 e \<le> pow2 (k + int p)"
      using ilog2_bounds(1) [OF pos] b unfolding e_def by linarith
    then show ?thesis by simp
  qed
  define j where "j = k - (max e emin - (int p - 1))"
  have "k - j = max e emin - (int p - 1)"
    by (simp add: j_def)
  then have q: "quantum p emin x = pow2 (k - j)"
    by (simp only: quantum_def e_def)
  show ?thesis
  proof (cases "e = k + int p")
    case True
    have ax0: "\<bar>x\<bar> = pow2 (k + int p)"
      using ilog2_bounds(1) [OF pos] b unfolding e_def [symmetric] True by linarith
    have "max e emin = e"
      using True k p by simp
    then have qe: "quantum p emin x = pow2 (k + int p - (int p - 1))"
      by (simp only: quantum_def e_def [symmetric] True)
    have "\<bar>x\<bar> / quantum p emin x = pow2 (k + int p) / pow2 (k + int p - (int p - 1))"
      by (simp only: ax0 qe)
    also have "\<dots> = pow2 (int p - 1)"
      by (simp add: pow2_diff [symmetric])
    also have "\<dots> = of_int (2 ^ nat (int p - 1))"
      using p by (simp add: pow2_nat)
    finally have ax: "\<bar>x\<bar> / quantum p emin x = of_int (2 ^ nat (int p - 1))" .
    show ?thesis
    proof (cases "0 \<le> x")
      case True
      with ax have "x / quantum p emin x = of_int (2 ^ nat (int p - 1))" by simp
      then show ?thesis using m by (rule round_fmt_exactI)
    next
      case False
      with ax have "x / quantum p emin x = of_int (- (2 ^ nat (int p - 1)))" by simp
      then show ?thesis using m by (rule round_fmt_exactI)
    qed
  next
    case False
    with e_le have "e - (int p - 1) \<le> k" by simp
    with k have j: "0 \<le> j" by (simp add: j_def)
    have "x / quantum p emin x = x / pow2 (k - j)"
      by (simp only: q)
    also have "\<dots> = of_int n * (pow2 k / pow2 (k - j))"
      using x by simp
    also have "pow2 k / pow2 (k - j) = pow2 j"
      by (simp add: pow2_diff [symmetric])
    also have "\<dots> = of_int (2 ^ nat j)"
      using j by (simp add: pow2_nat)
    finally have "x / quantum p emin x = of_int (n * 2 ^ nat j)" by simp
    then show ?thesis using m by (rule round_fmt_exactI)
  qed
qed

lemma fle_simps [simp]:
  "fle (Fin x) PInf" "\<not> fle (Fin x) NInf" "fle NInf (Fin x)" "\<not> fle PInf (Fin x)"
  "\<not> fle NaN a" "\<not> fle a NaN"
  by (cases a; simp add: fle_def feq_def)+

lemma abs_pow2 [simp]: "\<bar>pow2 k\<bar> = pow2 k"
  by (simp add: abs_of_pos)

text \<open>The shape of a rounded value.\<close>

lemma round_fmt_nonzero:
  assumes "x \<noteq> 0"
  shows "round_fmt p emin emax x =
    (if pow2 (emax + 1) \<le> \<bar>of_int (rne (x / quantum p emin x)) * quantum p emin x\<bar>
     then (if 0 < x then PInf else NInf)
     else Fin (of_int (rne (x / quantum p emin x)) * quantum p emin x))"
  using assms by (simp add: round_fmt_def Let_def)

lemma quantum_eq: "quantum p emin x = pow2 (max (ilog2 \<bar>x\<bar>) emin - (int p - 1))"
  by (simp add: quantum_def)

lemma rne_bound:
  assumes "x \<noteq> 0"
  shows "\<bar>of_int (rne (x / quantum p emin x)) * quantum p emin x\<bar>
    \<le> pow2 (max (ilog2 \<bar>x\<bar>) emin - (int p - 1) + int p)"
proof -
  define k where "k = max (ilog2 \<bar>x\<bar>) emin - (int p - 1)"
  have q: "quantum p emin x = pow2 k"
    by (simp add: quantum_def k_def)
  have pos: "0 < \<bar>x\<bar>" using assms by simp
  have "\<bar>x\<bar> < pow2 (ilog2 \<bar>x\<bar> + 1)"
    by (rule ilog2_bounds(2) [OF pos])
  also have "\<dots> \<le> pow2 (k + int p)"
    by (simp add: k_def)
  finally have "\<bar>x\<bar> < pow2 k * pow2 (int p)"
    by (simp add: pow2_add)
  then have "\<bar>x\<bar> / pow2 k < pow2 (int p)"
    by (simp add: pos_divide_less_eq mult.commute)
  then have a: "\<bar>x / pow2 k\<bar> < of_int (2 ^ p)"
    by (simp add: pow2_nat)
  then have "x / pow2 k \<le> of_int (2 ^ p)"
    by linarith
  then have up: "rne (x / pow2 k) \<le> 2 ^ p"
    by (rule rne_le)
  from a have "- of_int (2 ^ p) \<le> x / pow2 k"
    by linarith
  then have "of_int (- (2 ^ p)) \<le> x / pow2 k"
    by simp
  then have "- (2 ^ p) \<le> rne (x / pow2 k)"
    by (rule rne_ge)
  note up this
  then have "\<bar>rne (x / pow2 k)\<bar> \<le> 2 ^ p"
    by simp
  then have "\<bar>of_int (rne (x / pow2 k)) :: rat\<bar> \<le> of_int (2 ^ p)"
    by (simp only: of_int_abs [symmetric] of_int_le_iff)
  then have "\<bar>of_int (rne (x / pow2 k)) * pow2 k\<bar> \<le> of_int (2 ^ p) * pow2 k"
    by (simp add: abs_mult)
  also have "\<dots> = pow2 (k + int p)"
    by (simp add: pow2_add pow2_nat)
  finally show ?thesis
    unfolding q k_def .
qed

text \<open>Rounding is idempotent: a rounded value is kept by rounding.\<close>

lemma round_fmt_idem:
  assumes "round_fmt p emin emax x = Fin y" "1 \<le> p"
  shows "round_fmt p emin emax y = Fin y"
proof (cases "x = 0")
  case True
  with assms show ?thesis by simp
next
  case False
  define k where "k = max (ilog2 \<bar>x\<bar>) emin - (int p - 1)"
  define n where "n = rne (x / pow2 k)"
  have q: "quantum p emin x = pow2 k"
    by (simp add: quantum_def k_def)
  from assms(1) have y: "y = of_int n * pow2 k" and m: "\<bar>y\<bar> < pow2 (emax + 1)"
    unfolding round_fmt_nonzero [OF False] q n_def [symmetric]
    by (auto split: if_splits)
  have "\<bar>of_int (rne (x / pow2 k)) * pow2 k\<bar> \<le> pow2 (k + int p)"
    using rne_bound [OF False, of p emin] unfolding q k_def [symmetric] .
  then have b: "\<bar>y\<bar> \<le> pow2 (k + int p)"
    unfolding n_def [symmetric] y .
  have "emin - (int p - 1) \<le> k"
    by (simp add: k_def)
  with y assms(2) show ?thesis
    using b m by (rule round_fmt_multiple)
qed

text \<open>
  Rounding does not cross a value of the format: a value below \<open>x\<close> that rounding
  keeps stays below the rounded \<open>x\<close>.
\<close>

lemma round_fmt_ge:
  assumes r: "round_fmt p emin emax r = Fin r" and p: "1 \<le> p" and le: "r \<le> x"
  shows "fle (Fin r) (round_fmt p emin emax x)"
proof (cases "x = 0")
  case True
  with le show ?thesis by simp
next
  case x0: False
  define q where "q = quantum p emin x"
  define n where "n = rne (x / q)"
  define y where "y = of_int n * q"
  have qpos: "0 < q" by (simp add: q_def)
  have res: "round_fmt p emin emax x =
      (if pow2 (emax + 1) \<le> \<bar>y\<bar> then (if 0 < x then PInf else NInf) else Fin y)"
    unfolding y_def n_def q_def by (rule round_fmt_nonzero [OF x0])
  have sign: "0 \<le> y" if "0 < x"
  proof -
    have "of_int 0 \<le> x / q" using that qpos by simp
    then have "0 \<le> n" unfolding n_def by (rule rne_ge)
    then show ?thesis using qpos by (simp add: y_def)
  qed
  have A: "r \<le> y"
  proof (cases "r = 0")
    case True
    with le x0 have "0 < x" by simp
    with True sign show ?thesis by simp
  next
    case r0: False
    define kx where "kx = max (ilog2 \<bar>x\<bar>) emin"
    define kr where "kr = max (ilog2 \<bar>r\<bar>) emin"
    have qx: "q = pow2 (kx - (int p - 1))"
      by (simp add: q_def quantum_def kx_def)
    have qr: "quantum p emin r = pow2 (kr - (int p - 1))"
      by (simp add: quantum_def kr_def)
    show ?thesis
    proof (cases "kx \<le> kr")
      case True
      define m where "m = rne (r / quantum p emin r)"
      have "r / quantum p emin r = of_int m"
        unfolding m_def by (rule round_fmt_exactD(1) [OF r r0])
      then have rm: "r = of_int m * pow2 (kr - (int p - 1))"
        by (simp add: qr nonzero_divide_eq_eq)
      have "pow2 (kr - (int p - 1)) / q = pow2 (kr - kx)"
        by (simp add: qx pow2_diff [symmetric])
      also have "\<dots> = of_int (2 ^ nat (kr - kx))"
        using True by (simp add: pow2_nat)
      finally have sc: "pow2 (kr - (int p - 1)) / q = of_int (2 ^ nat (kr - kx))" .
      have "r / q = of_int m * (pow2 (kr - (int p - 1)) / q)"
        by (subst rm) simp
      also have "\<dots> = of_int m * of_int (2 ^ nat (kr - kx))"
        by (simp only: sc)
      finally have "r / q = of_int (m * 2 ^ nat (kr - kx))"
        by simp
      moreover have "r / q \<le> x / q"
        using le qpos by (simp add: divide_right_mono)
      ultimately have "m * 2 ^ nat (kr - kx) \<le> n"
        unfolding n_def by (intro rne_ge) simp
      then have "(of_int (m * 2 ^ nat (kr - kx)) :: rat) \<le> of_int n"
        by (simp only: of_int_le_iff)
      then have "r / q \<le> of_int n"
        using \<open>r / q = of_int (m * 2 ^ nat (kr - kx))\<close> by simp
      then show ?thesis
        using qpos by (simp add: y_def pos_divide_le_eq)
    next
      case False
      then have lt: "kr < kx" by simp
      then have ex: "kx = ilog2 \<bar>x\<bar>" and er: "ilog2 \<bar>r\<bar> < ilog2 \<bar>x\<bar>"
        by (auto simp: kx_def kr_def max_def split: if_splits)
      have rpos: "0 < \<bar>r\<bar>" and xpos: "0 < \<bar>x\<bar>"
        using r0 x0 by simp_all
      have "\<bar>r\<bar> < pow2 (ilog2 \<bar>r\<bar> + 1)"
        by (rule ilog2_bounds(2) [OF rpos])
      also have "\<dots> \<le> pow2 kx"
        using er ex by simp
      finally have rlt: "\<bar>r\<bar> < pow2 kx" .
      have xge: "pow2 kx \<le> \<bar>x\<bar>"
        unfolding ex by (rule ilog2_bounds(1) [OF xpos])
      have "0 < x"
      proof (rule ccontr)
        assume "\<not> 0 < x"
        with le x0 have "\<bar>x\<bar> \<le> \<bar>r\<bar>" by simp
        with rlt xge show False by simp
      qed
      with xge have "pow2 kx \<le> x" by simp
      then have "pow2 kx / q \<le> x / q"
        using qpos by (simp add: divide_right_mono)
      moreover have "pow2 kx / q = of_int (2 ^ nat (int p - 1))"
        using p by (simp add: qx pow2_diff [symmetric] pow2_nat)
      ultimately have "2 ^ nat (int p - 1) \<le> n"
        unfolding n_def by (intro rne_ge) simp
      then have "(of_int (2 ^ nat (int p - 1)) :: rat) \<le> of_int n"
        by (simp only: of_int_le_iff)
      then have "pow2 kx / q \<le> of_int n"
        using \<open>pow2 kx / q = of_int (2 ^ nat (int p - 1))\<close> by simp
      then have "pow2 kx \<le> y"
        using qpos by (simp add: y_def pos_divide_le_eq)
      with rlt show ?thesis by simp
    qed
  qed
  show ?thesis
  proof (cases "pow2 (emax + 1) \<le> \<bar>y\<bar>")
    case False
    with A show ?thesis by (simp add: res)
  next
    case True
    show ?thesis
    proof (cases "0 < x")
      case True
      with \<open>pow2 (emax + 1) \<le> \<bar>y\<bar>\<close> show ?thesis by (simp add: res)
    next
      case False
      with x0 le have "r < 0" "x < 0" by simp_all
      then have "of_int 0 \<ge> x / q" using qpos by (simp add: divide_le_0_iff)
      then have "n \<le> 0" unfolding n_def by (rule rne_le)
      then have "y \<le> 0" using qpos by (simp add: y_def mult_le_0_iff)
      with A True have "pow2 (emax + 1) \<le> \<bar>r\<bar>" by simp
      moreover have "\<bar>r\<bar> < pow2 (emax + 1)"
        using round_fmt_exactD(2) [OF r] \<open>r < 0\<close> by simp
      ultimately show ?thesis by simp
    qed
  qed
qed

lemma fle_fneg: "fle (fneg a) (fneg b) = fle b a"
  by (cases a; cases b; auto simp: fle_def feq_def)

lemma round_fmt_le:
  assumes r: "round_fmt p emin emax r = Fin r" and p: "1 \<le> p" and le: "x \<le> r"
  shows "fle (round_fmt p emin emax x) (Fin r)"
proof -
  have "round_fmt p emin emax (- r) = Fin (- r)"
    by (simp add: round_fmt_minus r)
  from round_fmt_ge [OF this p, of "- x"] le
  have "fle (fneg (Fin r)) (fneg (round_fmt p emin emax x))"
    by (simp add: round_fmt_minus)
  then show ?thesis by (simp only: fle_fneg)
qed

subsection \<open>Doubles\<close>

lemma is_double_zero [simp]: "is_double 0"
  by (simp add: is_double_def round_double_def)

lemma is_double_minus [simp]: "is_double (- x) = is_double x"
  by (cases "round_double x") (auto simp: is_double_def round_double_def round_fmt_minus)

lemma round_double_is_double: "round_double x = Fin y \<Longrightarrow> is_double y"
  unfolding is_double_def round_double_def by (rule round_fmt_idem) simp_all

lemma round_double_ge: "is_double r \<Longrightarrow> r \<le> x \<Longrightarrow> fle (Fin r) (round_double x)"
  unfolding is_double_def round_double_def by (rule round_fmt_ge) simp_all

lemma round_double_le: "is_double r \<Longrightarrow> x \<le> r \<Longrightarrow> fle (round_double x) (Fin r)"
  unfolding is_double_def round_double_def by (rule round_fmt_le) simp_all

text \<open>Halving a double of magnitude at least 2 is exact.\<close>

lemma is_double_half:
  assumes d: "is_double x" and x: "2 \<le> \<bar>x\<bar>"
  shows "is_double (x / 2)"
proof -
  from x have x0: "x \<noteq> 0" and pos: "0 < \<bar>x\<bar>" by auto
  define e where "e = ilog2 \<bar>x\<bar>"
  have "pow2 1 \<le> \<bar>x\<bar>" using x by simp
  then have e1: "1 \<le> e" unfolding e_def by (rule ilog2_ge)
  have "ilog2 (\<bar>x\<bar> * pow2 (- 1)) = e + (- 1)"
    unfolding e_def by (rule ilog2_scale [OF pos])
  moreover have "\<bar>x\<bar> * pow2 (- 1) = \<bar>x / 2\<bar>"
    by (simp add: pow2_def)
  ultimately have eh: "ilog2 \<bar>x / 2\<bar> = e - 1" by simp
  have qx: "quantum 53 (- 1022) x = pow2 (e - 52)"
    using e1 by (simp add: quantum_def e_def [symmetric] max_def)
  have qh: "quantum 53 (- 1022) (x / 2) = pow2 (e - 52 - 1)"
    using e1 unfolding quantum_def eh by (simp add: max_def)
  have "pow2 (e - 52 - 1) = pow2 (e - 52) / 2"
    by (simp only: pow2_diff [of "e - 52" 1] pow2_one)
  with qh qx have "x / 2 / quantum 53 (- 1022) (x / 2) = x / quantum 53 (- 1022) x"
    by simp
  also have "\<dots> = of_int (rne (x / quantum 53 (- 1022) x))"
    using d x0 unfolding is_double_def round_double_def by (rule round_fmt_exactD(1))
  finally have "x / 2 / quantum 53 (- 1022) (x / 2) = of_int (rne (x / quantum 53 (- 1022) x))" .
  moreover have "\<bar>x\<bar> < pow2 (1023 + 1)"
    using d x0 unfolding is_double_def round_double_def by (rule round_fmt_exactD(2))
  then have "\<bar>x / 2\<bar> < pow2 (1023 + 1)" by simp
  ultimately show ?thesis
    unfolding is_double_def round_double_def by (rule round_fmt_exactI)
qed

text \<open>Doubling a double below \<open>2 ^ 1023\<close> is exact.\<close>

lemma is_double_twice:
  assumes d: "is_double x" and x: "\<bar>x\<bar> < pow2 1023"
  shows "is_double (x * 2)"
proof (cases "x = 0")
  case True
  then show ?thesis by simp
next
  case x0: False
  then have pos: "0 < \<bar>x\<bar>" by simp
  define e where "e = ilog2 \<bar>x\<bar>"
  define k where "k = max e (- 1022) - 52"
  define n where "n = rne (x / quantum 53 (- 1022) x)"
  have q: "quantum 53 (- 1022) x = pow2 k"
    by (simp add: quantum_def e_def k_def)
  have "x / quantum 53 (- 1022) x = of_int n"
    using d x0 unfolding is_double_def round_double_def n_def by (rule round_fmt_exactD(1))
  then have xn: "x = of_int n * pow2 k"
    by (simp add: q nonzero_divide_eq_eq)
  have lt: "\<bar>x\<bar> < pow2 (e + 1)"
    unfolding e_def by (rule ilog2_bounds(2) [OF pos])
  have "pow2 (1023 + 1) = pow2 1023 * 2"
    by (simp only: pow2_add pow2_one)
  then have m: "\<bar>x * 2\<bar> < pow2 (1023 + 1)"
    using x by (simp add: abs_mult)
  show ?thesis
  proof (cases "- 1022 \<le> e")
    case True
    then have k: "k = e - 52" by (simp add: k_def)
    have 1: "x * 2 = of_int n * pow2 (k + 1)"
      by (simp add: xn pow2_add)
    have "\<bar>x * 2\<bar> < pow2 (e + 1) * 2"
      using lt by simp
    also have "\<dots> = pow2 (e + 1 + 1)"
      by (simp only: pow2_add pow2_one)
    also have "e + 1 + 1 = k + 1 + int 53"
      by (simp add: k)
    finally have 2: "\<bar>x * 2\<bar> \<le> pow2 (k + 1 + int 53)" by simp
    have 3: "- 1022 - (int 53 - 1) \<le> k + 1"
      using True by (simp add: k)
    show ?thesis
      unfolding is_double_def round_double_def
      using 1 _ 3 2 m by (rule round_fmt_multiple) simp
  next
    case False
    then have k: "k = - 1074" by (simp add: k_def)
    have 1: "x * 2 = of_int (n * 2) * pow2 k"
      by (simp add: xn)
    have "pow2 (e + 1) \<le> pow2 (- 1022)"
      using False by simp
    with lt have "\<bar>x\<bar> < pow2 (- 1022)"
      by linarith
    then have "\<bar>x * 2\<bar> < pow2 (- 1022) * 2"
      by (simp add: abs_mult)
    also have "\<dots> = pow2 (- 1022 + 1)"
      by (simp only: pow2_add pow2_one)
    also have "- 1022 + 1 = k + int 53"
      by (simp add: k)
    finally have 2: "\<bar>x * 2\<bar> \<le> pow2 (k + int 53)" by simp
    have 3: "- 1022 - (int 53 - 1) \<le> k"
      by (simp add: k)
    show ?thesis
      unfolding is_double_def round_double_def
      using 1 _ 3 2 m by (rule round_fmt_multiple) simp
  qed
qed

section \<open>The range reduction of \<^verbatim>\<open>ln\<close>\<close>

text \<open>The first loop, \<^verbatim>\<open>while a > 2: a /= 2; exp += 1\<close>, returns for every positive double.\<close>

lemma ln_halve_returns:
  assumes "is_double x" "0 < x"
  shows "\<exists>r e'. ln_halve (Fin x) e = Some (Inr (Fin r, e')) \<and> is_double r \<and> 0 < r \<and> r \<le> 2
     \<and> (if 2 < x then 1 < r else r = x) \<and> r * pow2 e' = x * pow2 e"
  using assms
proof (induction "nat (ilog2 x)" arbitrary: x e rule: less_induct)
  case less
  show ?case
  proof (cases "2 < x")
    case False
    then have "ln_halve (Fin x) e = Some (Inr (Fin x, e))"
      by (subst ln_halve.simps) simp
    with False less.prems show ?thesis by simp
  next
    case True
    then have ax: "2 \<le> \<bar>x\<bar>" by simp
    have h: "is_double (x / 2)" "0 < x / 2"
      using is_double_half [OF less.prems(1) ax] less.prems(2) by simp_all
    have "pow2 1 \<le> x" using True by simp
    then have e1: "1 \<le> ilog2 x" by (rule ilog2_ge)
    have "ilog2 (x * pow2 (- 1)) = ilog2 x + (- 1)"
      by (rule ilog2_scale [OF less.prems(2)])
    moreover have "x * pow2 (- 1) = x / 2"
      by (simp add: pow2_def)
    ultimately have "ilog2 (x / 2) = ilog2 x - 1" by simp
    with e1 have "nat (ilog2 (x / 2)) < nat (ilog2 x)" by simp
    from less.hyps [OF this h, of "e + 1"] obtain r e' where r:
      "ln_halve (Fin (x / 2)) (e + 1) = Some (Inr (Fin r, e'))" "is_double r" "0 < r" "r \<le> 2"
      "if 2 < x / 2 then 1 < r else r = x / 2" "r * pow2 e' = x / 2 * pow2 (e + 1)"
      by blast
    have "ln_halve (Fin x) e = ln_halve (Fin (x / 2)) (e + 1)"
      using True by (subst ln_halve.simps) (simp add: h(1) [unfolded is_double_def])
    moreover have "1 < r"
      using r(5) True by (auto split: if_splits)
    moreover have "r * pow2 e' = x * pow2 e"
      using r(6) by (simp add: pow2_add)
    ultimately show ?thesis
      using r True by simp
  qed
qed

text \<open>The second loop, \<^verbatim>\<open>while a < 1: a *= 2; exp -= 1\<close>, returns for every positive double.\<close>

lemma ln_double_returns:
  assumes "is_double x" "0 < x"
  shows "\<exists>r e'. ln_double (Fin x) e = Some (Inr (Fin r, e')) \<and> 1 \<le> r
     \<and> (if x < 1 then r < 2 else r = x) \<and> r * pow2 e' = x * pow2 e"
  using assms
proof (induction "nat (- ilog2 x)" arbitrary: x e rule: less_induct)
  case less
  show ?case
  proof (cases "x < 1")
    case False
    then have "ln_double (Fin x) e = Some (Inr (Fin x, e))"
      by (subst ln_double.simps) simp
    with False show ?thesis by simp
  next
    case True
    then have ax: "\<bar>x\<bar> < 1" using less.prems(2) by simp
    have "pow2 0 < pow2 1023" by (simp only: pow2_less_iff)
    with ax have "\<bar>x\<bar> < pow2 1023" by simp
    then have h: "is_double (x * 2)" "0 < x * 2"
      using is_double_twice [OF less.prems(1)] less.prems(2) by simp_all
    have "x < pow2 0" using True by simp
    then have e0: "ilog2 x < 0" by (rule ilog2_less [OF less.prems(2)])
    have "ilog2 (x * pow2 1) = ilog2 x + 1"
      by (rule ilog2_scale [OF less.prems(2)])
    then have "ilog2 (x * 2) = ilog2 x + 1" by simp
    with e0 have "nat (- ilog2 (x * 2)) < nat (- ilog2 x)" by simp
    from less.hyps [OF this h, of "e - 1"] obtain r e' where r:
      "ln_double (Fin (x * 2)) (e - 1) = Some (Inr (Fin r, e'))" "1 \<le> r"
      "if x * 2 < 1 then r < 2 else r = x * 2" "r * pow2 e' = x * 2 * pow2 (e - 1)"
      by blast
    have "ln_double (Fin x) e = ln_double (Fin (x * 2)) (e - 1)"
      using True by (subst ln_double.simps) (simp add: h(1) [unfolded is_double_def])
    moreover have "r < 2"
      using r(3) True by (auto split: if_splits)
    moreover have "r * pow2 e' = x * pow2 e"
      using r(4) by (simp add: pow2_diff)
    ultimately show ?thesis
      using r True by simp
  qed
qed

lemma round_double_two: "round_double 2 = Fin 2"
  by code_simp

lemma is_double_three: "is_double 3"
  by code_simp

text \<open>
  Claim C7 says that the reduced argument lies in the half-open interval \<open>[1, 2)\<close> for
  every positive \<open>a\<close> other than 1. The first loop runs while \<^verbatim>\<open>a > 2\<close>, so it stops
  at 2: for \<open>a = 2\<close> and for \<open>a = 4\<close> the reduced argument is 2.
\<close>

theorem ln_reduce_leaves_two:
  "ln_reduce (Fin 2) = Some (Inr (Fin 2, 0)) \<and> ln_reduce (Fin 4) = Some (Inr (Fin 2, 1))"
proof -
  have 1: "ln_halve (Fin 2) e = Some (Inr (Fin 2, e))" for e
    by (subst ln_halve.simps) simp
  have 2: "ln_double (Fin 2) e = Some (Inr (Fin 2, e))" for e
    by (subst ln_double.simps) simp
  have 3: "ln_halve (Fin 4) 0 = ln_halve (Fin 2) 1"
    by (subst ln_halve.simps) (simp add: round_double_two)
  show ?thesis
    by (simp add: ln_reduce_def 1 2 3)
qed

text \<open>
  Claim C7, amended. For every positive double \<open>a\<close>, the two loops of the range
  reduction return and leave a reduced argument \<open>r\<close> in the closed interval \<open>[1, 2]\<close>,
  with \<open>a = r * 2 ^ exp\<close> for the exponent counter \<open>exp\<close>.
\<close>

theorem ln_reduce_range:
  assumes "is_double x" "0 < x"
  shows "\<exists>r e. ln_reduce (Fin x) = Some (Inr (Fin r, e)) \<and> 1 \<le> r \<and> r \<le> 2 \<and> x = r * pow2 e"
proof -
  from ln_halve_returns [OF assms, of 0] obtain r e where r:
    "ln_halve (Fin x) 0 = Some (Inr (Fin r, e))" "is_double r" "0 < r" "r \<le> 2"
    "if 2 < x then 1 < r else r = x" "r * pow2 e = x * pow2 0"
    by blast
  from ln_double_returns [OF r(2,3), of e] obtain s e' where s:
    "ln_double (Fin r) e = Some (Inr (Fin s, e'))" "1 \<le> s"
    "if r < 1 then s < 2 else s = r" "s * pow2 e' = r * pow2 e"
    by blast
  have "ln_reduce (Fin x) = Some (Inr (Fin s, e'))"
    by (simp add: ln_reduce_def r(1) s(1))
  moreover have "s \<le> 2"
    using s(3) r(4) by (auto split: if_splits)
  moreover have "x = s * pow2 e'"
    using s(4) r(6) by simp
  ultimately show ?thesis
    using s(2) by blast
qed

theorem ln_reduce_range_witness:
  "is_double 3 \<and> (0::rat) < 3
   \<and> (\<exists>r e. ln_reduce (Fin 3) = Some (Inr (Fin r, e)) \<and> 1 \<le> r \<and> r \<le> 2 \<and> 3 = r * pow2 e)"
  using ln_reduce_range [of 3] is_double_three by simp

section \<open>The range reduction of \<^verbatim>\<open>sin\<close> and \<^verbatim>\<open>cos\<close>\<close>

text \<open>The double \<^verbatim>\<open>PI\<close>, and \<^verbatim>\<open>2 * PI\<close>, which is exact.\<close>

lemma PI_value: "PI = Fin (884279719003555 / 281474976710656)"
  by code_simp

lemma two_PI_value: "fmul (Fin 2) PI = Fin (884279719003555 / 140737488355328)"
  unfolding PI_value by code_simp

lemma is_double_PI: "is_double (884279719003555 / 281474976710656)"
  using PI_value round_double_is_double [of "31415926535897932 / 10 ^ 16"]
  by (simp add: PI_def lit_def)

lemma is_double_two_pow_53: "is_double (2 ^ 53)"
  by code_simp

text \<open>Below \<open>2 ^ 54\<close> a double larger than 2 is a multiple of 4 away from a double.\<close>

lemma is_double_minus_four:
  assumes d: "is_double a" and lo: "3 < a" and hi: "a \<le> 2 ^ 53"
  shows "is_double (a - 4)"
proof -
  have pos: "0 < \<bar>a\<bar>" and a0: "a \<noteq> 0" using lo by simp_all
  define e where "e = ilog2 \<bar>a\<bar>"
  define n where "n = rne (a / quantum 53 (- 1022) a)"
  have "pow2 1 \<le> \<bar>a\<bar>" using lo by simp
  then have e1: "1 \<le> e" unfolding e_def by (rule ilog2_ge)
  have "(2::rat) ^ 53 < pow2 54" by (simp add: pow2_def)
  with hi lo have "\<bar>a\<bar> < pow2 54" by simp
  then have e54: "e < 54" unfolding e_def by (rule ilog2_less [OF pos])
  have q: "quantum 53 (- 1022) a = pow2 (e - 52)"
    using e1 by (simp add: quantum_def e_def [symmetric] max_def)
  have "a / quantum 53 (- 1022) a = of_int n"
    using d a0 unfolding is_double_def round_double_def n_def by (rule round_fmt_exactD(1))
  then have an: "a = of_int n * pow2 (e - 52)"
    by (simp add: q nonzero_divide_eq_eq)
  have "pow2 2 / pow2 (e - 52) = pow2 (2 - (e - 52))"
    by (simp only: pow2_diff)
  also have "\<dots> = of_int (2 ^ nat (2 - (e - 52)))"
    using e54 by (simp add: pow2_nat)
  finally have "pow2 2 = of_int (2 ^ nat (2 - (e - 52))) * pow2 (e - 52)"
    by (simp add: nonzero_divide_eq_eq)
  moreover have "pow2 2 = 4" by (simp add: pow2_def)
  ultimately have four: "4 = of_int (2 ^ nat (2 - (e - 52))) * pow2 (e - 52)"
    by simp
  have 1: "a - 4 = of_int (n - 2 ^ nat (2 - (e - 52))) * pow2 (e - 52)"
    by (subst four, subst an) (simp add: algebra_simps)
  have up: "\<bar>a\<bar> < pow2 (e + 1)"
    unfolding e_def by (rule ilog2_bounds(2) [OF pos])
  have "pow2 2 \<le> pow2 (e + 1)" using e1 by simp
  then have "4 \<le> pow2 (e + 1)" by (simp add: \<open>pow2 2 = 4\<close>)
  with up lo have "\<bar>a - 4\<bar> \<le> pow2 (e + 1)" by simp
  also have "e + 1 = e - 52 + int 53" by simp
  finally have 2: "\<bar>a - 4\<bar> \<le> pow2 (e - 52 + int 53)" .
  have 3: "- 1022 - (int 53 - 1) \<le> e - 52"
    using e1 by simp
  have "pow2 54 \<le> pow2 (1023 + 1)" by (simp only: pow2_le_iff)
  with \<open>\<bar>a\<bar> < pow2 54\<close> lo have 4: "\<bar>a - 4\<bar> < pow2 (1023 + 1)" by linarith
  show ?thesis
    unfolding is_double_def round_double_def
    using 1 _ 3 2 4 by (rule round_fmt_multiple) simp
qed

text \<open>One step of \<^verbatim>\<open>while a > PI: a -= 2 * PI\<close>.\<close>

lemma reduce_down_step:
  assumes d: "is_double a" and lo: "884279719003555 / 281474976710656 < a" and hi: "a \<le> 2 ^ 53"
  shows "\<exists>a'. fsub (Fin a) (fmul (Fin 2) PI) = Fin a' \<and> is_double a'
     \<and> - (884279719003555 / 281474976710656) \<le> a' \<and> a' \<le> a - 4"
proof -
  let ?x = "a + - (884279719003555 / 140737488355328)"
  have eq: "fsub (Fin a) (fmul (Fin 2) PI) = round_double ?x"
    by (simp add: two_PI_value fsub_def)
  have "is_double (a - 4)"
    using d _ hi by (rule is_double_minus_four) (use lo in simp)
  moreover have "?x \<le> a - 4" by simp
  ultimately have up: "fle (round_double ?x) (Fin (a - 4))"
    by (rule round_double_le)
  have "is_double (- (884279719003555 / 281474976710656))"
    using is_double_PI by (simp only: is_double_minus)
  moreover have "- (884279719003555 / 281474976710656) \<le> ?x" using lo by simp
  ultimately have low: "fle (Fin (- (884279719003555 / 281474976710656))) (round_double ?x)"
    by (rule round_double_ge)
  show ?thesis
  proof (cases "round_double ?x")
    case (Fin y)
    with up low round_double_is_double [OF Fin] show ?thesis
      by (simp add: eq)
  qed (use up low in simp_all)
qed

text \<open>The first loop returns for every double up to \<open>2 ^ 53\<close>.\<close>

lemma reduce_down_returns:
  assumes "is_double a" "a \<le> 2 ^ 53"
  shows "\<exists>r. reduce_down (Fin a) = Some (Fin r) \<and> is_double r
     \<and> r \<le> 884279719003555 / 281474976710656
     \<and> (if 884279719003555 / 281474976710656 < a
         then - (884279719003555 / 281474976710656) \<le> r else r = a)"
  using assms
proof (induction "nat (\<lfloor>a\<rfloor> + 4)" arbitrary: a rule: less_induct)
  case less
  show ?case
  proof (cases "884279719003555 / 281474976710656 < a")
    case False
    then have "reduce_down (Fin a) = Some (Fin a)"
      by (subst reduce_down.simps) (simp add: PI_value)
    with False less.prems show ?thesis by simp
  next
    case True
    from reduce_down_step [OF less.prems(1) True less.prems(2)] obtain a' where a':
      "fsub (Fin a) (fmul (Fin 2) PI) = Fin a'" "is_double a'"
      "- (884279719003555 / 281474976710656) \<le> a'" "a' \<le> a - 4"
      by blast
    have "of_int (- 4) \<le> a'" using a'(3) by simp
    then have f0: "- 4 \<le> \<lfloor>a'\<rfloor>" by (simp only: le_floor_iff)
    have "\<lfloor>a'\<rfloor> \<le> \<lfloor>a - 4\<rfloor>" using a'(4) by (rule floor_mono)
    then have "\<lfloor>a'\<rfloor> \<le> \<lfloor>a\<rfloor> - 4" by simp
    with f0 have "nat (\<lfloor>a'\<rfloor> + 4) < nat (\<lfloor>a\<rfloor> + 4)"
      unfolding zless_nat_conj by linarith
    moreover have "a' \<le> 2 ^ 53" using a'(4) less.prems(2) by simp
    ultimately obtain r where r: "reduce_down (Fin a') = Some (Fin r)" "is_double r"
      "r \<le> 884279719003555 / 281474976710656"
      "if 884279719003555 / 281474976710656 < a'
       then - (884279719003555 / 281474976710656) \<le> r else r = a'"
      using less.hyps [OF _ a'(2)] by blast
    have c: "fgt (Fin a) PI"
      using True by (simp add: PI_value)
    have "reduce_down (Fin a) = reduce_down (Fin a')"
      by (subst reduce_down.simps) (simp only: c a'(1) if_True)
    moreover have "- (884279719003555 / 281474976710656) \<le> r"
      using r(4) a'(3) by (auto split: if_splits)
    ultimately show ?thesis
      using r True by simp
  qed
qed

text \<open>One step of \<^verbatim>\<open>while a < -PI: a += 2 * PI\<close>, and the loop.\<close>

lemma reduce_up_step:
  assumes d: "is_double a" and hi: "a < - (884279719003555 / 281474976710656)"
    and lo: "- (2 ^ 53) \<le> a"
  shows "\<exists>a'. fadd (Fin a) (fmul (Fin 2) PI) = Fin a' \<and> is_double a'
     \<and> a' \<le> 884279719003555 / 281474976710656 \<and> a + 4 \<le> a'"
proof -
  let ?x = "a + 884279719003555 / 140737488355328"
  have eq: "fadd (Fin a) (fmul (Fin 2) PI) = round_double ?x"
    by (simp add: two_PI_value)
  have "is_double (- a - 4)"
    by (rule is_double_minus_four) (use d hi lo in simp_all)
  then have "is_double (- (- a - 4))"
    by (simp only: is_double_minus)
  also have "- (- a - 4) = a + 4" by simp
  finally have "is_double (a + 4)" .
  moreover have "a + 4 \<le> ?x" by simp
  ultimately have low: "fle (Fin (a + 4)) (round_double ?x)"
    by (rule round_double_ge)
  have "?x \<le> 884279719003555 / 281474976710656" using hi by simp
  with is_double_PI have up: "fle (round_double ?x) (Fin (884279719003555 / 281474976710656))"
    by (rule round_double_le)
  show ?thesis
  proof (cases "round_double ?x")
    case (Fin y)
    with up low round_double_is_double [OF Fin] show ?thesis
      by (simp add: eq)
  qed (use up low in simp_all)
qed

lemma reduce_up_returns:
  assumes "is_double a" "- (2 ^ 53) \<le> a"
  shows "\<exists>r. reduce_up (Fin a) = Some (Fin r) \<and> is_double r
     \<and> - (884279719003555 / 281474976710656) \<le> r
     \<and> (if a < - (884279719003555 / 281474976710656)
         then r \<le> 884279719003555 / 281474976710656 else r = a)"
  using assms
proof (induction "nat (4 - \<lfloor>a\<rfloor>)" arbitrary: a rule: less_induct)
  case less
  have n: "fneg PI = Fin (- (884279719003555 / 281474976710656))"
    by (simp add: PI_value)
  show ?case
  proof (cases "a < - (884279719003555 / 281474976710656)")
    case False
    then have "reduce_up (Fin a) = Some (Fin a)"
      by (subst reduce_up.simps) (simp add: n)
    with False less.prems show ?thesis by simp
  next
    case True
    from reduce_up_step [OF less.prems(1) True less.prems(2)] obtain a' where a':
      "fadd (Fin a) (fmul (Fin 2) PI) = Fin a'" "is_double a'"
      "a' \<le> 884279719003555 / 281474976710656" "a + 4 \<le> a'"
      by blast
    have "a' < of_int 4" using a'(3) by simp
    then have f0: "\<lfloor>a'\<rfloor> < 4" by (simp only: floor_less_iff)
    have "\<lfloor>a + 4\<rfloor> \<le> \<lfloor>a'\<rfloor>" using a'(4) by (rule floor_mono)
    then have "\<lfloor>a\<rfloor> + 4 \<le> \<lfloor>a'\<rfloor>" by simp
    with f0 have "nat (4 - \<lfloor>a'\<rfloor>) < nat (4 - \<lfloor>a\<rfloor>)"
      unfolding zless_nat_conj by linarith
    moreover have "- (2 ^ 53) \<le> a'" using a'(4) less.prems(2) by simp
    ultimately obtain r where r: "reduce_up (Fin a') = Some (Fin r)" "is_double r"
      "- (884279719003555 / 281474976710656) \<le> r"
      "if a' < - (884279719003555 / 281474976710656)
       then r \<le> 884279719003555 / 281474976710656 else r = a'"
      using less.hyps [OF _ a'(2)] by blast
    have c: "flt (Fin a) (fneg PI)"
      using True by (simp add: n)
    have "reduce_up (Fin a) = reduce_up (Fin a')"
      by (subst reduce_up.simps) (simp only: c a'(1) if_True)
    moreover have "r \<le> 884279719003555 / 281474976710656"
      using r(4) a'(3) by (auto split: if_splits)
    ultimately show ?thesis
      using r True by simp
  qed
qed

text \<open>Both loops, one after the other.\<close>

lemma reduce_returns:
  assumes "is_double x" "\<bar>x\<bar> \<le> 2 ^ 53"
  shows "\<exists>r1 r. reduce_down (Fin x) = Some (Fin r1) \<and> reduce_up (Fin r1) = Some (Fin r)
     \<and> - (884279719003555 / 281474976710656) \<le> r \<and> r \<le> 884279719003555 / 281474976710656"
proof -
  from assms(2) have b: "x \<le> 2 ^ 53" "- (2 ^ 53) \<le> x" by linarith+
  from reduce_down_returns [OF assms(1) b(1)] obtain r1 where r1:
    "reduce_down (Fin x) = Some (Fin r1)" "is_double r1"
    "r1 \<le> 884279719003555 / 281474976710656"
    "if 884279719003555 / 281474976710656 < x
     then - (884279719003555 / 281474976710656) \<le> r1 else r1 = x"
    by blast
  have "- (2 ^ 53) \<le> r1"
    using r1(4) b(2) by (auto split: if_splits)
  from reduce_up_returns [OF r1(2) this] obtain r where r:
    "reduce_up (Fin r1) = Some (Fin r)" "- (884279719003555 / 281474976710656) \<le> r"
    "if r1 < - (884279719003555 / 281474976710656)
     then r \<le> 884279719003555 / 281474976710656 else r = r1"
    by blast
  have "r \<le> 884279719003555 / 281474976710656"
    using r(3) r1(3) by (auto split: if_splits)
  with r1(1) r(1,2) show ?thesis by blast
qed

text \<open>The series after the reduction never raises.\<close>

lemma int_to_float_small:
  assumes "\<bar>d\<bar> \<le> 2 ^ 53"
  shows "int_to_float d = Inr (Fin (of_int d))"
proof -
  have "\<bar>of_int d :: rat\<bar> \<le> of_int (2 ^ 53)"
    using assms by (simp only: of_int_abs [symmetric] of_int_le_iff)
  then have b: "\<bar>of_int d :: rat\<bar> \<le> pow2 (0 + int 53)"
    by (simp add: pow2_def)
  have "pow2 (0 + int 53) < pow2 (1023 + 1)"
    by (simp only: pow2_less_iff)
  with b have m: "\<bar>of_int d :: rat\<bar> < pow2 (1023 + 1)"
    by linarith
  have "round_fmt 53 (- 1022) 1023 (of_int d) = Fin (of_int d)"
    by (rule round_fmt_multiple [where n = d and k = 0]) (use b m in simp_all)
  then show ?thesis
    by (simp add: int_to_float_def round_double_def)
qed

lemma series_step_returns:
  assumes "d \<noteq> 0" "\<bar>d\<bar> \<le> 2 ^ 53"
  shows "\<exists>s'. series_step a d s = Inr s'"
proof -
  from assms(1) have "(of_int d :: rat) \<noteq> 0" by simp
  from truediv_by_nonzero [OF this] obtain q
    where "truediv (fmul (fneg a) a) (Fin (of_int d)) = Inr q"
    by blast
  then show ?thesis
    by (simp add: series_step_def int_to_float_small [OF assms(2)] Let_def)
qed

lemma forE_returns:
  assumes "\<And>i s. i \<in> set xs \<Longrightarrow> \<exists>s'. body i s = Inr s'"
  shows "\<exists>s'. forE xs s body = Inr s'"
  using assms
proof (induction xs arbitrary: s)
  case Nil
  show ?case by simp
next
  case (Cons i xs)
  from Cons.prems [of i s] obtain t where "body i s = Inr t" by auto
  moreover from Cons.IH [of t] Cons.prems obtain s' where "forE xs t body = Inr s'" by auto
  ultimately show ?case by simp
qed

lemma sin_series_returns:
  "\<exists>s'. forE [1..7] s (\<lambda>i. series_step a ((2 * i) * (2 * i + 1))) = Inr s'"
proof (rule forE_returns)
  fix i :: int and t
  assume "i \<in> set [1..7]"
  then have i: "1 \<le> i" "i \<le> 7" by simp_all
  define d where "d = (2 * i) * (2 * i + 1)"
  have "0 < d"
    unfolding d_def using i by (intro mult_pos_pos) simp_all
  moreover have "d \<le> 14 * 15"
    unfolding d_def using i by (intro mult_mono) simp_all
  ultimately have "d \<noteq> 0" "\<bar>d\<bar> \<le> 2 ^ 53"
    by simp_all
  then show "\<exists>s'. series_step a ((2 * i) * (2 * i + 1)) t = Inr s'"
    unfolding d_def [symmetric] by (rule series_step_returns)
qed

lemma cos_series_returns:
  "\<exists>s'. forE [1..7] s (\<lambda>i. series_step a ((2 * i - 1) * (2 * i))) = Inr s'"
proof (rule forE_returns)
  fix i :: int and t
  assume "i \<in> set [1..7]"
  then have i: "1 \<le> i" "i \<le> 7" by simp_all
  define d where "d = (2 * i - 1) * (2 * i)"
  have "0 < d"
    unfolding d_def using i by (intro mult_pos_pos) simp_all
  moreover have "d \<le> 13 * 14"
    unfolding d_def using i by (intro mult_mono) simp_all
  ultimately have "d \<noteq> 0" "\<bar>d\<bar> \<le> 2 ^ 53"
    by simp_all
  then show "\<exists>s'. series_step a ((2 * i - 1) * (2 * i)) t = Inr s'"
    unfolding d_def [symmetric] by (rule series_step_returns)
qed

lemma absorbed: "fsub (Fin (2 ^ 60)) (fmul (Fin 2) PI) = Fin (2 ^ 60)"
  unfolding two_PI_value by code_simp

lemma reduce_down_stuck:
  assumes "reduce_down a = Some y"
  shows "a \<noteq> Fin (2 ^ 60)"
proof (rule reduce_down.raw_induct [where P = "\<lambda>a y. a \<noteq> Fin (2 ^ 60)", OF _ assms])
  fix f :: "double \<Rightarrow> double option" and b z
  assume ih: "\<And>x y. f x = Some y \<Longrightarrow> x \<noteq> Fin (2 ^ 60)"
    and st: "(if fgt b PI then f (fsub b (fmul (Fin 2) PI)) else Some b) = Some z"
  show "b \<noteq> Fin (2 ^ 60)"
  proof
    assume b: "b = Fin (2 ^ 60)"
    have g: "fgt (Fin (2 ^ 60)) PI" by (simp add: PI_value)
    from st have "f (Fin (2 ^ 60)) = Some z"
      unfolding b by (simp only: g if_True absorbed)
    from ih [OF this] show False by simp
  qed
qed



lemma is_double_ten: "is_double 10"
  by code_simp

text \<open>
  Claim C8 says that the two loops terminate for every finite argument, also a very
  large one, so that \<^verbatim>\<open>sin\<close> and \<^verbatim>\<open>cos\<close> always return. At \<open>2 ^ 60\<close>, a finite double,
  the subtraction \<^verbatim>\<open>a -= 2 * PI\<close> rounds back to \<open>a\<close>: the first loop never ends, and
  neither call returns.
\<close>

theorem sin_cos_never_return_at_two_pow_60:
  "is_finite (Fin (2 ^ 60)) = Inr True \<and> fsub (Fin (2 ^ 60)) (fmul (Fin 2) PI) = Fin (2 ^ 60)
   \<and> reduce_down (Fin (2 ^ 60)) = None
   \<and> sin_py (Fin (2 ^ 60)) = None \<and> cos_py (Fin (2 ^ 60)) = None"
proof -
  have "reduce_down (Fin (2 ^ 60)) = None"
    using reduce_down_stuck [of "Fin (2 ^ 60)"] by (cases "reduce_down (Fin (2 ^ 60))") auto
  then show ?thesis
    using absorbed by (simp add: sin_py_def cos_py_def)
qed

text \<open>
  Claim C8, amended. For every nonzero double \<open>a\<close> with \<open>\<bar>a\<bar> \<le> 2 ^ 53\<close>, the two
  adjustment loops terminate and leave the reduced argument in \<open>[-PI, PI]\<close>, and \<^verbatim>\<open>sin\<close>
  and \<^verbatim>\<open>cos\<close> return a value.
\<close>

theorem sin_cos_return_bounded:
  assumes "is_double x" "x \<noteq> 0" "\<bar>x\<bar> \<le> 2 ^ 53"
  shows "\<exists>r1 r s c. reduce_down (Fin x) = Some (Fin r1) \<and> reduce_up (Fin r1) = Some (Fin r)
     \<and> fle (fneg PI) (Fin r) \<and> fle (Fin r) PI
     \<and> sin_py (Fin x) = Some (Inr s) \<and> cos_py (Fin x) = Some (Inr c)"
proof -
  from reduce_returns [OF assms(1,3)] obtain r1 r where r:
    "reduce_down (Fin x) = Some (Fin r1)" "reduce_up (Fin r1) = Some (Fin r)"
    "- (884279719003555 / 281474976710656) \<le> r" "r \<le> 884279719003555 / 281474976710656"
    by blast
  obtain s' where s: "forE [1..7] (Fin r, Fin r) (\<lambda>i. series_step (Fin r) ((2 * i) * (2 * i + 1))) = Inr s'"
    using sin_series_returns by blast
  obtain c' where c: "forE [1..7] (Fin 1, Fin 1) (\<lambda>i. series_step (Fin r) ((2 * i - 1) * (2 * i))) = Inr c'"
    using cos_series_returns by blast
  have "sin_py (Fin x) = Some (Inr (fst s'))"
    using assms(2) by (simp add: sin_py_def r(1,2) s)
  moreover have "cos_py (Fin x) = Some (Inr (fst c'))"
    using assms(2) by (simp add: cos_py_def r(1,2) c)
  moreover have "fle (fneg PI) (Fin r)" "fle (Fin r) PI"
    using r(3,4) by (simp_all add: PI_value)
  ultimately show ?thesis
    using r(1,2) by blast
qed

theorem sin_cos_return_bounded_witness:
  "is_double 10 \<and> (10::rat) \<noteq> 0 \<and> \<bar>10::rat\<bar> \<le> 2 ^ 53
   \<and> (\<exists>r1 r s c. reduce_down (Fin 10) = Some (Fin r1) \<and> reduce_up (Fin r1) = Some (Fin r)
     \<and> fle (fneg PI) (Fin r) \<and> fle (Fin r) PI
     \<and> sin_py (Fin 10) = Some (Inr s) \<and> cos_py (Fin 10) = Some (Inr c))"
  using sin_cos_return_bounded [of 10] is_double_ten by simp

section \<open>The bit codec\<close>












end
